theory Spec2Isabelle
  imports Complex_Main "HOL-Library.AList"
begin

section \<open>JSON values and Python dictionaries\<close>

text \<open>
  A token-detail file holds one JSON object. The model covers the objects whose fields
  hold scalars: null, a boolean, an integer, a float or a string; Python's \<open>None\<close> is
  JSON null. \<open>json.load\<close> also reads \<open>NaN\<close>, \<open>Infinity\<close> and \<open>-Infinity\<close>. A finite
  float is held by its exact value, a rational; \<open>-0.0\<close> is a value of its own. Nested
  arrays and objects are outside the model.
\<close>

datatype pyfloat = Finite rat | NegZero | PosInf | NegInf | NaN

datatype jvalue = JNull | JBool bool | JNum int | JFloat pyfloat | JStr string

text \<open>
  Python's \<open>==\<close> on these values. Booleans, integers and floats are compared as
  numbers, by value (\<open>True == 1\<close>, \<open>1 == 1.0\<close>, \<open>-0.0 == 0\<close>), and \<open>NaN\<close> equals
  nothing, not even itself. \<open>None\<close> and strings equal only themselves.
\<close>

fun number_of :: "jvalue \<Rightarrow> pyfloat option" where
  "number_of (JBool b) = Some (Finite (if b then 1 else 0))"
| "number_of (JNum n) = Some (Finite (of_int n))"
| "number_of (JFloat NegZero) = Some (Finite 0)"
| "number_of (JFloat x) = Some x"
| "number_of v = None"

definition py_eq :: "jvalue \<Rightarrow> jvalue \<Rightarrow> bool" where
  "py_eq x y =
     (case (number_of x, number_of y) of
        (Some a, Some b) \<Rightarrow> a \<noteq> NaN \<and> a = b
      | (None, None) \<Rightarrow> x = y
      | _ \<Rightarrow> False)"

text \<open>
  A Python \<open>dict\<close> keeps its keys in insertion order and holds each key once: an
  association list whose keys are distinct. \<open>AList.update\<close> is the assignment
  \<open>d[k] = v\<close>: it overwrites in place or appends.
\<close>

type_synonym jdict = "(string \<times> jvalue) list"

definition keys_of :: "(string \<times> 'v) list \<Rightarrow> string list" where
  "keys_of d = map fst d"

definition has_key :: "(string \<times> 'v) list \<Rightarrow> string \<Rightarrow> bool" where
  "has_key d k = (k \<in> set (keys_of d))"

text \<open>\<open>d.get(k)\<close>: the value, or \<open>None\<close> when the key is missing.\<close>

definition dict_get :: "jdict \<Rightarrow> string \<Rightarrow> jvalue" where
  "dict_get d k = (case map_of d k of None \<Rightarrow> JNull | Some v \<Rightarrow> v)"

section \<open>Strings\<close>

text \<open>\<open>s.endswith(suf)\<close>.\<close>

definition endswith :: "string \<Rightarrow> string \<Rightarrow> bool" where
  "endswith s suf = (length suf \<le> length s \<and> drop (length s - length suf) s = suf)"

text \<open>
  \<open>s.replace(pat, '')\<close>: every non-overlapping occurrence of \<open>pat\<close>, scanning from the
  left, is removed.
\<close>

function remove_all :: "string \<Rightarrow> string \<Rightarrow> string" where
  "remove_all pat [] = []"
| "remove_all pat (c # cs) =
     (if pat \<noteq> [] \<and> take (length pat) (c # cs) = pat
      then remove_all pat (drop (length pat) (c # cs))
      else c # remove_all pat cs)"
  by pat_completeness auto
termination
  by (relation "measure (\<lambda>(pat, s). length s)") auto

definition token_id_of :: "string \<Rightarrow> string" where
  "token_id_of filename = remove_all ''.json'' filename"

section \<open>Announcements\<close>

text \<open>
  Both monitors announce an event in two statements: \<open>print\<close> calls, then a call of a
  \<open>send_*\<close> method. \<open>print\<close> can raise (a closed stream, a name the stream's encoding
  cannot write), and then the method is not called. A \<open>send_*\<close> method works inside its
  own \<open>try\<close>, whose \<open>except\<close> clause prints: an exception leaves the method only when
  that print raises too. So an announcement ends in one of three ways: an exception
  before the call, the call returns, an exception leaves the call. Which one is the
  environment's choice, given to the model with its input. An alert is one call of a
  \<open>send_*\<close> method, with what the method puts into the embed it posts; delivery (the
  webhook URL, the HTTP call) is outside the model.
\<close>

datatype outcome = PrintRaises | Returns | SendRaises

definition step_alerts :: "outcome \<Rightarrow> 'a \<Rightarrow> 'a list" where
  "step_alerts oc a = (if oc = PrintRaises then [] else [a])"

section \<open>token\_details\_monitor.py\<close>

subsection \<open>State and alerts\<close>

text \<open>
  \<open>TokenDetailsMonitor\<close> owns two dictionaries keyed by file name: \<open>previous_states\<close>
  (the cleaned record last seen) and \<open>price_transition_states\<close> (the trading status last
  seen). They are looked up and assigned by key, never iterated.
\<close>

record monitor =
  previous_states :: "string \<rightharpoonup> jdict"
  price_transition_states :: "string \<rightharpoonup> bool"

definition ignored_fields :: "string set" where
  "ignored_fields = {''markPx'', ''prevDayPx''}"

text \<open>The constructor: both tables empty, before \<open>load_initial_states\<close> runs.\<close>

definition init_monitor :: monitor where
  "init_monitor = \<lparr>previous_states = Map.empty, price_transition_states = Map.empty\<rparr>"

text \<open>
  \<open>changes\<close> maps a field name to the pair (old value, new value), \<open>None\<close> standing
  for a missing side.
\<close>

type_synonym changes = "(string \<times> (jvalue \<times> jvalue)) list"

text \<open>
  The embeds of the three \<open>send_*\<close> methods: the token id and the embed's fields.
  \<open>send_new_token_alert\<close> reads only \<open>midPx\<close> of the record it is given.
\<close>

datatype alert =
    NewTokenAlert string bool "jvalue option"
  | TradeableAlert string jvalue
  | ChangesAlert string changes

definition send_new_token_alert :: "string \<Rightarrow> jdict \<Rightarrow> alert" where
  "send_new_token_alert token_id token_data =
     (let is_trading = (dict_get token_data ''midPx'' \<noteq> JNull)
      in NewTokenAlert token_id is_trading
           (if is_trading then Some (dict_get token_data ''midPx'') else None))"

definition send_trading_status_alert :: "string \<Rightarrow> jvalue \<Rightarrow> alert" where
  "send_trading_status_alert token_id price = TradeableAlert token_id price"

definition send_discord_alert :: "string \<Rightarrow> changes \<Rightarrow> alert" where
  "send_discord_alert token_id chs = ChangesAlert token_id chs"

subsection \<open>The field filter and the two comparison loops\<close>

definition clean :: "jdict \<Rightarrow> jdict" where
  "clean d = filter (\<lambda>(k, v). k \<notin> ignored_fields) d"

text \<open>
  The first loop, over the items of \<open>cleaned_current\<close>: \<open>midPx\<close> is skipped when the
  token was already trading; a key missing from \<open>previous_data\<close> is recorded as new, a
  key whose value differs as changed.
\<close>

fun changed_or_new :: "jdict \<Rightarrow> bool \<Rightarrow> jdict \<Rightarrow> changes \<Rightarrow> changes" where
  "changed_or_new previous_data was_trading [] chs = chs"
| "changed_or_new previous_data was_trading ((key, val) # rest) chs =
     (if key = ''midPx'' \<and> was_trading
      then changed_or_new previous_data was_trading rest chs
      else if \<not> has_key previous_data key
      then changed_or_new previous_data was_trading rest
             (AList.update key (JNull, val) chs)
      else if \<not> py_eq (dict_get previous_data key) val
      then changed_or_new previous_data was_trading rest
             (AList.update key (dict_get previous_data key, val) chs)
      else changed_or_new previous_data was_trading rest chs)"

text \<open>
  The second loop, over the keys of \<open>previous_data\<close>: a key missing from
  \<open>cleaned_current\<close> is recorded as removed. The first argument is the whole
  \<open>previous_data\<close> (for \<open>previous_data[key]\<close>), the third the keys still to visit.
\<close>

fun removed_fields :: "jdict \<Rightarrow> jdict \<Rightarrow> string list \<Rightarrow> changes \<Rightarrow> changes" where
  "removed_fields previous_data cleaned_current [] chs = chs"
| "removed_fields previous_data cleaned_current (key # rest) chs =
     (if \<not> has_key cleaned_current key
      then removed_fields previous_data cleaned_current rest
             (AList.update key (dict_get previous_data key, JNull) chs)
      else removed_fields previous_data cleaned_current rest chs)"

definition compute_changes :: "jdict \<Rightarrow> jdict \<Rightarrow> bool \<Rightarrow> changes" where
  "compute_changes previous_data cleaned_current was_trading =
     removed_fields previous_data cleaned_current (keys_of previous_data)
       (changed_or_new previous_data was_trading cleaned_current [])"

subsection \<open>One file of one cycle\<close>

text \<open>
  \<open>self.price_transition_states.get(filename, False)\<close> and
  \<open>self.previous_states.get(filename, {})\<close>.
\<close>

definition stored_status :: "monitor \<Rightarrow> string \<Rightarrow> bool" where
  "stored_status m filename =
     (case price_transition_states m filename of None \<Rightarrow> False | Some b \<Rightarrow> b)"

definition stored_record :: "monitor \<Rightarrow> string \<Rightarrow> jdict" where
  "stored_record m filename =
     (case previous_states m filename of None \<Rightarrow> [] | Some d \<Rightarrow> d)"

text \<open>
  What the environment decides while one file is handled: how each of the three
  announcements ends if it is made (the new-file one, the now-tradeable one, the one of
  the changes), and whether the \<open>print\<close> of the \<open>except\<close> clause of the loop body
  succeeds.
\<close>

record io =
  new_step :: outcome
  trade_step :: outcome
  change_step :: outcome
  handler_ok :: bool

text \<open>
  The body of the loop of \<open>check_for_changes\<close> for one file, statement by statement.
  The content is \<open>None\<close> when \<open>open\<close> or \<open>json.load\<close> raises, or when the file does not
  hold a JSON object (then \<open>.get\<close> raises, inside \<open>send_new_token_alert\<close> before the
  embed is filled and again at the trading-status check): the \<open>except\<close> clause is
  reached with no alert sent and no table written. For a JSON object, an announcement
  that raises leads to the \<open>except\<close> clause as well, and what was sent and written before
  stays: \<open>price_transition_states\<close> is written after the first two announcements,
  \<open>previous_states\<close> after the third. The \<open>except\<close> clause prints; the third component
  of the result says that this print raised, so that the exception leaves
  \<open>check_for_changes\<close>.
\<close>

definition process_file :: "io \<Rightarrow> monitor \<Rightarrow> string \<Rightarrow> jdict option \<Rightarrow> monitor \<times> alert list \<times> bool" where
  "process_file env m filename content =
     (case content of
        None \<Rightarrow> (m, [], \<not> handler_ok env)
      | Some current_data \<Rightarrow>
          (let token_id = token_id_of filename;
               is_new = (previous_states m filename = None);
               new_alerts =
                 (if is_new
                  then step_alerts (new_step env) (send_new_token_alert token_id current_data)
                  else [])
           in if is_new \<and> new_step env \<noteq> Returns
              then (m, new_alerts, \<not> handler_ok env)
              else
                (let was_trading = stored_status m filename;
                     is_trading = (dict_get current_data ''midPx'' \<noteq> JNull);
                     trade_alerts =
                       (if \<not> was_trading \<and> is_trading
                        then step_alerts (trade_step env)
                               (send_trading_status_alert token_id (dict_get current_data ''midPx''))
                        else [])
                 in if \<not> was_trading \<and> is_trading \<and> trade_step env \<noteq> Returns
                    then (m, new_alerts @ trade_alerts, \<not> handler_ok env)
                    else
                      (let m1 = m\<lparr>price_transition_states :=
                                    (price_transition_states m)(filename \<mapsto> is_trading)\<rparr>;
                           cleaned_current = clean current_data;
                           previous_data = stored_record m filename;
                           chs = compute_changes previous_data cleaned_current was_trading;
                           change_alerts =
                             (if chs \<noteq> []
                              then step_alerts (change_step env) (send_discord_alert token_id chs)
                              else [])
                       in if chs \<noteq> [] \<and> change_step env \<noteq> Returns
                          then (m1, new_alerts @ trade_alerts @ change_alerts, \<not> handler_ok env)
                          else (m1\<lparr>previous_states :=
                                     (previous_states m)(filename \<mapsto> cleaned_current)\<rparr>,
                                new_alerts @ trade_alerts @ change_alerts, False)))))"

subsection \<open>A whole cycle, and start-up\<close>

text \<open>
  \<open>check_for_changes\<close> walks the directory listing: each entry is a file name, the
  content read from it, and the environment's choices for it. Each alert is logged with
  the file name whose iteration sent it. When an exception leaves the loop body the
  method ends there, with the tables as they are; the third component says so.
\<close>

type_synonym listing = "(string \<times> jdict option \<times> io) list"

fun check_for_changes :: "monitor \<Rightarrow> listing \<Rightarrow> monitor \<times> (string \<times> alert) list \<times> bool" where
  "check_for_changes m [] = (m, [], False)"
| "check_for_changes m ((filename, content, env) # rest) =
     (if \<not> endswith filename ''.json''
      then check_for_changes m rest
      else (let (m1, alerts, raised) = process_file env m filename content
            in if raised then (m1, map (Pair filename) alerts, True)
               else (let (m2, entries, e) = check_for_changes m1 rest
                     in (m2, map (Pair filename) alerts @ entries, e))))"

text \<open>
  \<open>load_initial_states\<close>, called by the constructor, sends nothing. A file that cannot
  be loaded is skipped; if the \<open>print\<close> of its \<open>except\<close> clause raised, the constructor
  would fail and no monitor would exist.
\<close>

fun load_initial_states :: "monitor \<Rightarrow> (string \<times> jdict option) list \<Rightarrow> monitor" where
  "load_initial_states m [] = m"
| "load_initial_states m ((filename, content) # rest) =
     (if \<not> endswith filename ''.json''
      then load_initial_states m rest
      else (case content of
              None \<Rightarrow> load_initial_states m rest
            | Some token_data \<Rightarrow>
                load_initial_states
                  (m\<lparr>price_transition_states :=
                       (price_transition_states m)(filename \<mapsto> dict_get token_data ''midPx'' \<noteq> JNull),
                     previous_states := (previous_states m)(filename \<mapsto> clean token_data)\<rparr>)
                  rest))"

text \<open>The state, the log and the exception flag of a cycle; the alerts of one file.\<close>

definition state_after :: "monitor \<times> (string \<times> alert) list \<times> bool \<Rightarrow> monitor" where
  "state_after r = fst r"

definition log_of :: "monitor \<times> (string \<times> alert) list \<times> bool \<Rightarrow> (string \<times> alert) list" where
  "log_of r = fst (snd r)"

definition escaped :: "monitor \<times> (string \<times> alert) list \<times> bool \<Rightarrow> bool" where
  "escaped r = snd (snd r)"

definition alerts_for :: "string \<Rightarrow> (string \<times> alert) list \<Rightarrow> alert list" where
  "alerts_for filename entries = map snd (filter (\<lambda>(f, a). f = filename) entries)"

text \<open>
  \<open>main\<close> calls \<open>check_for_changes\<close> again and again; an exception that leaves it is
  caught there, and the next cycle starts from the tables as they are. (If \<open>main\<close>'s own
  \<open>print\<close> raises, the process ends: the run is a shorter list of cycles.)
\<close>

fun run_cycles :: "monitor \<Rightarrow> listing list \<Rightarrow> monitor \<times> (string \<times> alert) list" where
  "run_cycles m [] = (m, [])"
| "run_cycles m (listing # later) =
     (let r = check_for_changes m listing;
          (m2, entries) = run_cycles (state_after r) later
      in (m2, log_of r @ entries))"

subsection \<open>Well-formed input and reachable states\<close>

text \<open>
  \<open>os.listdir\<close> names each file once, and \<open>json.load\<close> builds a \<open>dict\<close>, whose keys
  are distinct.
\<close>

definition wf_files :: "(string \<times> jdict option) list \<Rightarrow> bool" where
  "wf_files files =
     (distinct (map fst files) \<and>
      list_all (\<lambda>(f, c). case c of None \<Rightarrow> True | Some d \<Rightarrow> distinct (keys_of d)) files)"

definition wf_listing :: "listing \<Rightarrow> bool" where
  "wf_listing listing = wf_files (map (\<lambda>(f, c, env). (f, c)) listing)"

text \<open>
  The states of a running monitor: the constructor loads the directory, then
  \<open>main\<close> runs cycle after cycle, whatever the environment does in each.
\<close>

inductive reachable :: "monitor \<Rightarrow> bool" where
  start: "wf_files files \<Longrightarrow> reachable (load_initial_states init_monitor files)"
| cycle: "reachable m \<Longrightarrow> wf_listing listing \<Longrightarrow>
          reachable (state_after (check_for_changes m listing))"

text \<open>No stored record holds an ignored field: true of every reachable state.\<close>

definition stored_clean :: "monitor \<Rightarrow> bool" where
  "stored_clean m =
     (\<forall>f d. previous_states m f = Some d \<longrightarrow> set (keys_of d) \<inter> ignored_fields = {})"

subsection \<open>Vocabulary of the properties\<close>

text \<open>
  The loop of a cycle gets to a file when no exception left \<open>check_for_changes\<close> on
  the files listed before it.
\<close>

definition reaches :: "monitor \<Rightarrow> listing \<Rightarrow> string \<Rightarrow> bool" where
  "reaches m listing f =
     (\<not> escaped (check_for_changes m (takeWhile (\<lambda>(g, c, env). g \<noteq> f) listing)))"

text \<open>
  Announcements made one after the other, up to the first that raises: the alerts that
  were sent.
\<close>

fun sent :: "(outcome \<times> alert) list \<Rightarrow> alert list" where
  "sent [] = []"
| "sent ((oc, a) # rest) =
     (case oc of PrintRaises \<Rightarrow> [] | SendRaises \<Rightarrow> [a] | Returns \<Rightarrow> a # sent rest)"

fun is_new_token :: "alert \<Rightarrow> bool" where
  "is_new_token (NewTokenAlert t b p) = True"
| "is_new_token a = False"

fun is_tradeable :: "alert \<Rightarrow> bool" where
  "is_tradeable (TradeableAlert t p) = True"
| "is_tradeable a = False"

fun is_changes :: "alert \<Rightarrow> bool" where
  "is_changes (ChangesAlert t chs) = True"
| "is_changes a = False"

text \<open>The field names a change alert reports.\<close>

fun changed_fields :: "alert \<Rightarrow> string set" where
  "changed_fields (ChangesAlert t chs) = set (keys_of chs)"
| "changed_fields a = {}"

text \<open>
  Two records agree on a field when both lack it, or both hold it with values that
  Python's \<open>==\<close> equates.
\<close>

definition same_field :: "jdict \<Rightarrow> jdict \<Rightarrow> string \<Rightarrow> bool" where
  "same_field prev cur k =
     (case (map_of prev k, map_of cur k) of
        (None, None) \<Rightarrow> True
      | (Some p, Some v) \<Rightarrow> py_eq p v
      | _ \<Rightarrow> False)"

text \<open>The records agree on every field other than \<open>k\<close>.\<close>

definition agree_except :: "jdict \<Rightarrow> jdict \<Rightarrow> string \<Rightarrow> bool" where
  "agree_except prev cur k =
     list_all (\<lambda>k'. k' = k \<or> same_field prev cur k') (keys_of prev @ keys_of cur)"

definition differ_only_at :: "jdict \<Rightarrow> jdict \<Rightarrow> string \<Rightarrow> bool" where
  "differ_only_at prev cur k = (\<not> same_field prev cur k \<and> agree_except prev cur k)"

text \<open>No field of the record holds \<open>NaN\<close>.\<close>

definition nan_free :: "jdict \<Rightarrow> bool" where
  "nan_free d = list_all (\<lambda>(k, v). v \<noteq> JFloat NaN) d"

text \<open>
  The fields of a record reported as new against an empty baseline: all of them, but
  \<open>midPx\<close> when the stored status is true.
\<close>

definition all_new :: "bool \<Rightarrow> jdict \<Rightarrow> changes" where
  "all_new was d =
     map (\<lambda>(k, v). (k, (JNull, v))) (filter (\<lambda>(k, v). \<not> (k = ''midPx'' \<and> was)) d)"

text \<open>
  Over a run of cycles, whenever the file is read its \<open>midPx\<close> is non-null (the file may
  be missing from a listing, or unreadable).
\<close>

definition never_null :: "string \<Rightarrow> listing list \<Rightarrow> bool" where
  "never_null f cycles =
     list_all
       (list_all (\<lambda>(g, c, env). g = f \<longrightarrow>
                    (case c of None \<Rightarrow> True | Some cur \<Rightarrow> dict_get cur ''midPx'' \<noteq> JNull)))
       cycles"

text \<open>
  Two listings that show the same files with the same records once ignored fields are
  dropped, in the same environment.
\<close>

definition same_cleaned :: "listing \<Rightarrow> listing \<Rightarrow> bool" where
  "same_cleaned listing listing' =
     (map (\<lambda>(f, c, env). (f, map_option clean c, env)) listing
      = map (\<lambda>(f, c, env). (f, map_option clean c, env)) listing')"

text \<open>
  The entry of \<open>changes\<close> for one field, read off the two loops: what
  \<open>compute_changes\<close> holds at that key.
\<close>

definition field_change :: "jdict \<Rightarrow> jdict \<Rightarrow> bool \<Rightarrow> string \<Rightarrow> (jvalue \<times> jvalue) option" where
  "field_change prev cur was k =
     (case map_of cur k of
        Some v \<Rightarrow>
          (if k = ''midPx'' \<and> was then None
           else (case map_of prev k of
                   None \<Rightarrow> Some (JNull, v)
                 | Some p \<Rightarrow> if py_eq p v then None else Some (p, v)))
      | None \<Rightarrow> (case map_of prev k of None \<Rightarrow> None | Some p \<Rightarrow> Some (p, JNull)))"

section \<open>hyperliquid\_monitor.py\<close>

text \<open>
  An entry of \<open>market_data['tokens']\<close>: \<open>asset.get('name')\<close> and
  \<open>asset.get('tokenId')\<close>, the latter \<open>None\<close> when the key is missing.
  \<open>known_pairs\<close> is a \<open>Set[str]\<close>.
\<close>

record asset =
  pair_name :: string
  token_id :: "string option"

text \<open>Python's truth test on the token id and on the fetched details.\<close>

definition truthy_id :: "string option \<Rightarrow> bool" where
  "truthy_id t = (case t of None \<Rightarrow> False | Some s \<Rightarrow> s \<noteq> [])"

definition truthy_details :: "jdict option \<Rightarrow> bool" where
  "truthy_details r = (case r of None \<Rightarrow> False | Some d \<Rightarrow> d \<noteq> [])"

text \<open>
  What the environment decides for one asset, if the loop gets that far with it.
  \<open>fetch_token_details\<close> returns the details, or \<open>None\<close> when the request fails; it
  raises when the \<open>print\<close> of its \<open>except\<close> clause raises. \<open>save_token_details\<close> returns,
  or raises in the same way. \<open>notify_new_pair\<close> prints and then calls
  \<open>send_discord_alert\<close>, with no \<open>try\<close> of its own.
\<close>

datatype fetch_result = Fetched "jdict option" | FetchRaises

record asset_env =
  fetched :: fetch_result
  save_ok :: bool
  notify_step :: outcome

text \<open>
  The effects on the outside: a call of \<open>save_token_details\<close>, a call of
  \<open>send_discord_alert\<close> (the new-pair alert). The progress bar of the loop is not
  modelled.
\<close>

datatype pair_effect = SaveTokenDetails string jdict | NotifyNewPair string jdict

text \<open>
  The body of the loop of \<open>check_for_updates\<close> after \<open>pair_name\<close> and
  \<open>token_id\<close> are read from the asset: a pair that is not known and has a token id has
  its details fetched; when the answer is a non-empty object the details are saved and
  the pair is notified. The second component of the result says that an exception
  escaped.
\<close>

definition new_pair_effects :: "string set \<Rightarrow> string \<Rightarrow> string option \<Rightarrow> asset_env
    \<Rightarrow> pair_effect list \<times> bool" where
  "new_pair_effects known_pairs name tid env =
     (if name \<notin> known_pairs \<and> truthy_id tid
      then (case fetched env of
              FetchRaises \<Rightarrow> ([], True)
            | Fetched token_details \<Rightarrow>
                (case (tid, token_details) of
                   (Some t, Some d) \<Rightarrow>
                     if truthy_details token_details
                     then (if \<not> save_ok env then ([SaveTokenDetails t d], True)
                           else (SaveTokenDetails t d # step_alerts (notify_step env) (NotifyNewPair name d),
                                 notify_step env \<noteq> Returns))
                     else ([], False)
                 | _ \<Rightarrow> ([], False)))
      else ([], False))"

text \<open>
  The loop itself, over the assets with the environment of each. \<open>known_pairs\<close> is
  read, not written, inside the loop. An exception that escapes ends the loop: nothing
  catches it inside \<open>check_for_updates\<close>.
\<close>

fun process_assets :: "string set \<Rightarrow> (asset \<times> asset_env) list \<Rightarrow> string set \<Rightarrow> pair_effect list
    \<Rightarrow> string set \<times> pair_effect list \<times> bool" where
  "process_assets known_pairs [] current_pairs effs = (current_pairs, effs, False)"
| "process_assets known_pairs ((a, env) # rest) current_pairs effs =
     (let (new_effs, raised) = new_pair_effects known_pairs (pair_name a) (token_id a) env
      in if raised then (insert (pair_name a) current_pairs, effs @ new_effs, True)
         else process_assets known_pairs rest (insert (pair_name a) current_pairs)
                (effs @ new_effs))"

text \<open>
  \<open>market_data\<close> is \<open>None\<close> when \<open>fetch_spot_markets\<close> gives nothing to work on (it
  fails, or answers an empty object): the cycle ends at once. Otherwise it holds the
  token list (empty when the key \<open>tokens\<close> is missing). \<open>known_pairs\<close> is replaced by
  the names just seen after the loop, so not when an exception leaves the loop. The
  result is the new \<open>known_pairs\<close>, the effects, and whether an exception left the
  loop. \<open>save_cache\<close>, which writes the set to disk after the replacement, is outside
  the model.
\<close>

definition check_for_updates :: "string set \<Rightarrow> (asset \<times> asset_env) list option
    \<Rightarrow> string set \<times> pair_effect list \<times> bool" where
  "check_for_updates known_pairs market_data =
     (case market_data of
        None \<Rightarrow> (known_pairs, [], False)
      | Some tokens \<Rightarrow>
          (let (current_pairs, effs, raised) = process_assets known_pairs tokens {} []
           in if raised then (known_pairs, effs, True) else (current_pairs, effs, False)))"

definition known_after :: "string set \<times> pair_effect list \<times> bool \<Rightarrow> string set" where
  "known_after r = fst r"

definition effects_of :: "string set \<times> pair_effect list \<times> bool \<Rightarrow> pair_effect list" where
  "effects_of r = fst (snd r)"

definition interrupted :: "string set \<times> pair_effect list \<times> bool \<Rightarrow> bool" where
  "interrupted r = snd (snd r)"

text \<open>
  \<open>main\<close> catches an exception that leaves \<open>check_for_updates\<close>, waits and goes on with
  the next cycle.
\<close>

fun run_updates :: "string set \<Rightarrow> (asset \<times> asset_env) list option list
    \<Rightarrow> string set \<times> pair_effect list" where
  "run_updates known_pairs [] = (known_pairs, [])"
| "run_updates known_pairs (market_data # later) =
     (let r = check_for_updates known_pairs market_data;
          (known2, effs2) = run_updates (known_after r) later
      in (known2, effects_of r @ effs2))"

subsection \<open>Vocabulary of the properties\<close>

text \<open>The new-pair alerts sent for one pair name.\<close>

fun notifies :: "string \<Rightarrow> pair_effect \<Rightarrow> bool" where
  "notifies p (NotifyNewPair q d) = (q = p)"
| "notifies p e = False"

definition new_pair_alerts :: "string \<Rightarrow> pair_effect list \<Rightarrow> pair_effect list" where
  "new_pair_alerts p effs = filter (notifies p) effs"

definition names_of :: "(asset \<times> asset_env) list \<Rightarrow> string list" where
  "names_of tokens = map (\<lambda>(a, env). pair_name a) tokens"

text \<open>A pair stays listed: every snapshot that was fetched names it exactly once.\<close>

definition stays_listed :: "string \<Rightarrow> (asset \<times> asset_env) list option list \<Rightarrow> bool" where
  "stays_listed p cycles =
     list_all (\<lambda>md. case md of None \<Rightarrow> True | Some tokens \<Rightarrow> count_list (names_of tokens) p = 1)
       cycles"

text \<open>
  A pair is listed at most once over a run: after the cycles that do not show it, it
  stays listed.
\<close>

definition unlisted :: "string \<Rightarrow> (asset \<times> asset_env) list option \<Rightarrow> bool" where
  "unlisted p md = (case md of None \<Rightarrow> True | Some tokens \<Rightarrow> p \<notin> set (names_of tokens))"

definition listed_once :: "string \<Rightarrow> (asset \<times> asset_env) list option list \<Rightarrow> bool" where
  "listed_once p cycles = stays_listed p (dropWhile (unlisted p) cycles)"

text \<open>Every cycle of the run that sends a new-pair alert for the pair runs to its end.\<close>

fun alerting_cycles_complete :: "string \<Rightarrow> string set \<Rightarrow> (asset \<times> asset_env) list option list
    \<Rightarrow> bool" where
  "alerting_cycles_complete p known_pairs [] = True"
| "alerting_cycles_complete p known_pairs (market_data # later) =
     (let r = check_for_updates known_pairs market_data
      in (new_pair_alerts p (effects_of r) = [] \<or> \<not> interrupted r)
         \<and> alerting_cycles_complete p (known_after r) later)"

section \<open>Example inputs\<close>

text \<open>The environment in which nothing raises.\<close>

definition quiet :: io where
  "quiet = \<lparr>new_step = Returns, trade_step = Returns, change_step = Returns, handler_ok = True\<rparr>"

text \<open>
  A directory holding the one file \<open>XYZ.json\<close>, with a given \<open>midPx\<close>, as the
  constructor reads it and as a cycle reads it in a given environment; the same with a
  \<open>markPx\<close> as well; the same without \<open>midPx\<close>; and the monitor started on the first.
\<close>

definition xyz_file :: "jvalue \<Rightarrow> (string \<times> jdict option) list" where
  "xyz_file mid = [(''XYZ.json'', Some [(''name'', JStr ''XYZ''), (''midPx'', mid)])]"

definition xyz_in :: "io \<Rightarrow> jvalue \<Rightarrow> listing" where
  "xyz_in env mid = [(''XYZ.json'', Some [(''name'', JStr ''XYZ''), (''midPx'', mid)], env)]"

definition xyz :: "jvalue \<Rightarrow> listing" where
  "xyz mid = xyz_in quiet mid"

definition xyz_marked :: "jvalue \<Rightarrow> jvalue \<Rightarrow> listing" where
  "xyz_marked mid mark =
     [(''XYZ.json'', Some [(''name'', JStr ''XYZ''), (''midPx'', mid), (''markPx'', mark)], quiet)]"

definition xyz_unpriced :: listing where
  "xyz_unpriced = [(''XYZ.json'', Some [(''name'', JStr ''XYZ'')], quiet)]"

definition xyz_loaded :: "jvalue \<Rightarrow> monitor" where
  "xyz_loaded mid = load_initial_states init_monitor (xyz_file mid)"

text \<open>Two assets of a spot-market answer, the details of the first, and environments.\<close>

definition purr :: asset where
  "purr = \<lparr>pair_name = ''PURR'', token_id = Some ''0xc1fb''\<rparr>"

definition hfun :: asset where
  "hfun = \<lparr>pair_name = ''HFUN'', token_id = Some ''0xbaf2''\<rparr>"

definition purr_details :: jdict where
  "purr_details = [(''name'', JStr ''PURR''), (''totalSupply'', JStr ''1000'')]"

definition answers :: "jdict option \<Rightarrow> asset_env" where
  "answers r = \<lparr>fetched = Fetched r, save_ok = True, notify_step = Returns\<rparr>"

definition answers_then :: "jdict option \<Rightarrow> outcome \<Rightarrow> asset_env" where
  "answers_then r oc = \<lparr>fetched = Fetched r, save_ok = True, notify_step = oc\<rparr>"

section \<open>Properties of the comparison loops\<close>

lemma py_eq_refl: "x \<noteq> JFloat NaN \<Longrightarrow> py_eq x x"
proof (cases x)
  case (JFloat f)
  assume "x \<noteq> JFloat NaN"
  with JFloat show ?thesis by (cases f) (simp_all add: py_eq_def)
qed (simp_all add: py_eq_def)

lemma py_eq_null: "py_eq JNull v \<longleftrightarrow> v = JNull"
proof (cases v)
  case (JFloat f)
  then show ?thesis by (cases f) (simp_all add: py_eq_def)
qed (simp_all add: py_eq_def)

lemma has_key_map_of: "has_key d k \<longleftrightarrow> map_of d k \<noteq> None"
  by (simp add: has_key_def keys_of_def map_of_eq_None_iff)

lemma map_of_changed_or_new:
  "distinct (map fst items) \<Longrightarrow>
   map_of (changed_or_new prev was items chs) k =
     (case map_of items k of
        None \<Rightarrow> map_of chs k
      | Some v \<Rightarrow>
          (if k = ''midPx'' \<and> was then map_of chs k
           else (case map_of prev k of
                   None \<Rightarrow> Some (JNull, v)
                 | Some p \<Rightarrow> if py_eq p v then map_of chs k else Some (p, v))))"
proof (induction items arbitrary: chs)
  case Nil
  show ?case by simp
next
  case (Cons kv items)
  obtain key val where kv: "kv = (key, val)" by (cases kv)
  from Cons.prems kv have d: "distinct (map fst items)" and nk: "map_of items key = None"
    by (auto simp: map_of_eq_None_iff)
  have step: "map_of (changed_or_new prev was (kv # items) chs) k =
      (if key = ''midPx'' \<and> was then map_of (changed_or_new prev was items chs) k
       else if \<not> has_key prev key
       then map_of (changed_or_new prev was items (AList.update key (JNull, val) chs)) k
       else if \<not> py_eq (dict_get prev key) val
       then map_of (changed_or_new prev was items
                     (AList.update key (dict_get prev key, val) chs)) k
       else map_of (changed_or_new prev was items chs) k)"
    by (simp add: kv)
  show ?case
    unfolding step Cons.IH [OF d]
    using nk by (auto simp: kv has_key_map_of dict_get_def update_conv' split: option.splits)
qed

lemma map_of_removed_fields:
  "map_of (removed_fields prev cur ks chs) k =
     (if k \<in> set ks \<and> \<not> has_key cur k then Some (dict_get prev k, JNull) else map_of chs k)"
  by (induction ks arbitrary: chs) (auto simp: update_conv')

lemma map_of_compute_changes:
  assumes "distinct (map fst cur)"
  shows "map_of (compute_changes prev cur was) k = field_change prev cur was k"
proof -
  have k: "k \<in> set (keys_of prev) \<longleftrightarrow> map_of prev k \<noteq> None"
    using has_key_map_of [of prev k] by (simp add: has_key_def)
  show ?thesis
    unfolding compute_changes_def map_of_removed_fields map_of_changed_or_new [OF assms]
      field_change_def k has_key_map_of
    by (auto simp: dict_get_def split: option.splits)
qed

lemma distinct_changed_or_new:
  "distinct (map fst chs) \<Longrightarrow> distinct (map fst (changed_or_new prev was items chs))"
  by (induction items arbitrary: chs) (auto simp: distinct_update)

lemma distinct_removed_fields:
  "distinct (map fst chs) \<Longrightarrow> distinct (map fst (removed_fields prev cur ks chs))"
  by (induction ks arbitrary: chs) (auto simp: distinct_update)

lemma distinct_compute_changes: "distinct (map fst (compute_changes prev cur was))"
  by (simp add: compute_changes_def distinct_removed_fields distinct_changed_or_new)

lemma alist_empty: "(\<And>k. map_of xs k = None) \<Longrightarrow> xs = []"
proof (cases xs)
  case Nil
  then show ?thesis .
next
  case (Cons kv rest)
  assume "\<And>k. map_of xs k = None"
  from this [of "fst kv"] Cons show ?thesis by simp
qed

lemma alist_single:
  assumes d: "distinct (map fst xs)"
    and m: "\<And>k'. map_of xs k' = (if k' = k then Some e else None)"
  shows "xs = [(k, e)]"
proof -
  have "dom (map_of xs) = {k}"
    using m by (auto simp: dom_def)
  then have s: "set (map fst xs) = {k}"
    by (simp add: dom_map_of_conv_image_fst)
  have "length (map fst xs) = 1"
    using distinct_card [OF d] s by simp
  then obtain kv where x: "xs = [kv]"
    by (cases xs) auto
  with s obtain v where "xs = [(k, v)]" by (cases kv) auto
  with m [of k] show ?thesis by simp
qed

lemma same_field_no_change: "same_field prev cur k \<Longrightarrow> field_change prev cur was k = None"
  by (auto simp: same_field_def field_change_def split: option.splits)

lemma same_field_absent: "map_of prev k = None \<Longrightarrow> map_of cur k = None \<Longrightarrow> same_field prev cur k"
  by (simp add: same_field_def)

lemma differ_field_change:
  assumes "\<not> same_field prev cur k" and "\<not> (k = ''midPx'' \<and> was \<and> has_key cur k)"
  shows "field_change prev cur was k = Some (dict_get prev k, dict_get cur k)"
  using assms
  by (auto simp: same_field_def field_change_def dict_get_def has_key_map_of split: option.splits)

lemma dict_get_clean: "k \<notin> ignored_fields \<Longrightarrow> dict_get (clean d) k = dict_get d k"
proof (induction d)
  case Nil
  show ?case by (simp add: clean_def)
next
  case (Cons kv d)
  then show ?case
    by (cases kv) (auto simp: clean_def dict_get_def)
qed

lemma midPx_clean: "dict_get (clean d) ''midPx'' = dict_get d ''midPx''"
  by (rule dict_get_clean) (simp add: ignored_fields_def)

lemma keys_clean: "set (keys_of (clean d)) = set (keys_of d) - ignored_fields"
  by (auto simp: clean_def keys_of_def)

lemma distinct_clean: "distinct (keys_of d) \<Longrightarrow> distinct (keys_of (clean d))"
  by (simp add: clean_def keys_of_def distinct_map_filter)

lemma map_of_clean: "k \<notin> ignored_fields \<Longrightarrow> map_of (clean d) k = map_of d k"
  by (induction d) (auto simp: clean_def)

lemma update_fresh: "k \<notin> fst ` set al \<Longrightarrow> AList.update k v al = al @ [(k, v)]"
  by (induction al) auto

lemma keys_changed_or_new:
  "set (keys_of (changed_or_new prev was items chs)) \<subseteq> set (keys_of chs) \<union> set (keys_of items)"
proof (induction items arbitrary: chs)
  case Nil
  show ?case by simp
next
  case (Cons kv items)
  obtain k v where kv: "kv = (k, v)" by (cases kv)
  have u: "\<And>e. set (keys_of (AList.update k e chs)) = insert k (set (keys_of chs))"
    by (simp add: keys_of_def dom_update)
  have "changed_or_new prev was (kv # items) chs = changed_or_new prev was items chs
      \<or> (\<exists>e. changed_or_new prev was (kv # items) chs
               = changed_or_new prev was items (AList.update k e chs))"
    by (simp add: kv) blast
  then consider (skip) "changed_or_new prev was (kv # items) chs = changed_or_new prev was items chs"
    | (upd) e where "changed_or_new prev was (kv # items) chs
               = changed_or_new prev was items (AList.update k e chs)"
    by blast
  then show ?case
  proof cases
    case skip
    with Cons.IH [of chs] show ?thesis by (auto simp: kv keys_of_def)
  next
    case upd
    with Cons.IH [of "AList.update k e chs"] u [of e] show ?thesis
      by (auto simp: kv keys_of_def)
  qed
qed

lemma keys_removed_fields:
  "set (keys_of (removed_fields prev cur ks chs)) \<subseteq> set (keys_of chs) \<union> set ks"
proof (induction ks arbitrary: chs)
  case Nil
  show ?case by simp
next
  case (Cons k ks)
  have u: "\<And>e. set (keys_of (AList.update k e chs)) = insert k (set (keys_of chs))"
    by (simp add: keys_of_def dom_update)
  show ?case
    using Cons.IH [of chs] Cons.IH [of "AList.update k (dict_get prev k, JNull) chs"]
    by (auto simp: u)
qed

lemma keys_compute_changes:
  "set (keys_of (compute_changes prev cur was)) \<subseteq> set (keys_of prev) \<union> set (keys_of cur)"
  using keys_removed_fields [of prev cur "keys_of prev" "changed_or_new prev was cur []"]
    keys_changed_or_new [of prev was cur "[]"]
  by (auto simp: compute_changes_def keys_of_def)

lemma compute_changes_self:
  assumes "distinct (keys_of r)" and "nan_free r"
  shows "compute_changes r r was = []"
proof (rule alist_empty)
  fix k
  have "same_field r r k"
  proof (cases "map_of r k")
    case None
    then show ?thesis by (simp add: same_field_def)
  next
    case (Some v)
    then have "(k, v) \<in> set r" by (rule map_of_SomeD)
    with assms(2) have "v \<noteq> JFloat NaN" by (auto simp: nan_free_def list_all_iff)
    with Some show ?thesis by (simp add: same_field_def py_eq_refl)
  qed
  then show "map_of (compute_changes r r was) k = None"
    using assms(1) by (simp add: map_of_compute_changes keys_of_def same_field_no_change)
qed

lemma changed_or_new_empty:
  "distinct (map fst chs @ map fst items) \<Longrightarrow>
   changed_or_new [] was items chs = chs @ all_new was items"
proof (induction items arbitrary: chs)
  case Nil
  show ?case by (simp add: all_new_def)
next
  case (Cons kv items)
  obtain k v where kv: "kv = (k, v)" by (cases kv)
  from Cons.prems kv have f: "k \<notin> fst ` set chs"
    and d0: "distinct (map fst chs @ map fst items)"
    and d: "distinct (map fst (chs @ [(k, (JNull, v))]) @ map fst items)"
    by auto
  show ?case
  proof (cases "k = ''midPx'' \<and> was")
    case True
    with Cons.IH [OF d0] show ?thesis by (simp add: kv all_new_def)
  next
    case False
    then have "changed_or_new [] was (kv # items) chs
               = changed_or_new [] was items (chs @ [(k, (JNull, v))])"
      by (auto simp: kv has_key_def keys_of_def update_fresh [OF f])
    moreover from False have "all_new was (kv # items) = (k, (JNull, v)) # all_new was items"
      by (auto simp: kv all_new_def)
    ultimately show ?thesis using Cons.IH [OF d] by simp
  qed
qed

lemma compute_changes_new:
  "distinct (keys_of cur) \<Longrightarrow> compute_changes [] cur was = all_new was cur"
  using changed_or_new_empty [of "[]" cur was]
  by (simp add: compute_changes_def keys_of_def)

section \<open>Properties of a cycle, file by file\<close>

lemma process_file_None:
  "process_file env m f None = (m, [], \<not> handler_ok env)"
  by (simp add: process_file_def)

lemma process_file_alerts:
  "fst (snd (process_file env m f (Some cur))) =
     sent ((if previous_states m f = None
            then [(new_step env, send_new_token_alert (token_id_of f) cur)] else [])
           @ (if \<not> stored_status m f \<and> dict_get cur ''midPx'' \<noteq> JNull
              then [(trade_step env, TradeableAlert (token_id_of f) (dict_get cur ''midPx''))]
              else [])
           @ (if compute_changes (stored_record m f) (clean cur) (stored_status m f) \<noteq> []
              then [(change_step env,
                     ChangesAlert (token_id_of f)
                       (compute_changes (stored_record m f) (clean cur) (stored_status m f)))]
              else []))"
  by (cases "new_step env"; cases "trade_step env"; cases "change_step env")
     (simp_all add: process_file_def Let_def step_alerts_def send_trading_status_alert_def
        send_discord_alert_def)

lemma process_file_flag:
  "price_transition_states (fst (process_file env m f (Some cur))) f =
     (if (previous_states m f = None \<and> new_step env \<noteq> Returns)
         \<or> (\<not> stored_status m f \<and> dict_get cur ''midPx'' \<noteq> JNull \<and> trade_step env \<noteq> Returns)
      then price_transition_states m f
      else Some (dict_get cur ''midPx'' \<noteq> JNull))"
  by (simp add: process_file_def Let_def)

lemma process_file_record:
  "previous_states (fst (process_file env m f (Some cur))) f =
     (if (previous_states m f = None \<and> new_step env \<noteq> Returns)
         \<or> (\<not> stored_status m f \<and> dict_get cur ''midPx'' \<noteq> JNull \<and> trade_step env \<noteq> Returns)
         \<or> (compute_changes (stored_record m f) (clean cur) (stored_status m f) \<noteq> []
             \<and> change_step env \<noteq> Returns)
      then previous_states m f
      else Some (clean cur))"
  by (simp add: process_file_def Let_def)

lemma process_file_other:
  assumes "g \<noteq> f"
  shows "previous_states (fst (process_file env m g c)) f = previous_states m f"
    and "price_transition_states (fst (process_file env m g c)) f = price_transition_states m f"
  using assms
  by (cases c; simp add: process_file_def Let_def)+

lemma process_file_cong:
  assumes "previous_states m f = previous_states m' f"
    and "price_transition_states m f = price_transition_states m' f"
  shows "fst (snd (process_file env m f c)) = fst (snd (process_file env m' f c))"
    and "previous_states (fst (process_file env m f c)) f
         = previous_states (fst (process_file env m' f c)) f"
    and "price_transition_states (fst (process_file env m f c)) f
         = price_transition_states (fst (process_file env m' f c)) f"
proof -
  have s: "stored_status m f = stored_status m' f" "stored_record m f = stored_record m' f"
    using assms by (simp_all add: stored_status_def stored_record_def)
  show "fst (snd (process_file env m f c)) = fst (snd (process_file env m' f c))"
  proof (cases c)
    case None
    then show ?thesis by (simp add: process_file_None assms)
  next
    case (Some cur)
    show ?thesis unfolding Some by (simp only: process_file_alerts s assms)
  qed
  show "previous_states (fst (process_file env m f c)) f
         = previous_states (fst (process_file env m' f c)) f"
  proof (cases c)
    case None
    then show ?thesis by (simp add: process_file_None assms)
  next
    case (Some cur)
    show ?thesis unfolding Some by (simp only: process_file_record s assms)
  qed
  show "price_transition_states (fst (process_file env m f c)) f
         = price_transition_states (fst (process_file env m' f c)) f"
  proof (cases c)
    case None
    then show ?thesis by (simp add: process_file_None assms)
  next
    case (Some cur)
    show ?thesis unfolding Some by (simp only: process_file_flag s assms)
  qed
qed

lemma alerts_for_append: "alerts_for f (xs @ ys) = alerts_for f xs @ alerts_for f ys"
  by (simp add: alerts_for_def)

lemma alerts_for_same: "alerts_for f (map (Pair f) as) = as"
  by (induction as) (auto simp: alerts_for_def)

lemma alerts_for_other: "g \<noteq> f \<Longrightarrow> alerts_for f (map (Pair g) as) = []"
  by (induction as) (auto simp: alerts_for_def)

lemma check_Nil:
  "state_after (check_for_changes m []) = m"
  "log_of (check_for_changes m []) = []"
  "\<not> escaped (check_for_changes m [])"
  by (simp_all add: state_after_def log_of_def escaped_def)

lemma check_Cons:
  "check_for_changes m ((g, c, env) # rest) =
     (if \<not> endswith g ''.json'' then check_for_changes m rest
      else if snd (snd (process_file env m g c))
      then (fst (process_file env m g c), map (Pair g) (fst (snd (process_file env m g c))), True)
      else (state_after (check_for_changes (fst (process_file env m g c)) rest),
            map (Pair g) (fst (snd (process_file env m g c)))
            @ log_of (check_for_changes (fst (process_file env m g c)) rest),
            escaped (check_for_changes (fst (process_file env m g c)) rest)))"
  by (simp add: state_after_def log_of_def escaped_def split: prod.splits)

lemma check_skip:
  "\<not> endswith g ''.json'' \<Longrightarrow> check_for_changes m ((g, c, env) # rest) = check_for_changes m rest"
  by (simp add: check_Cons)

lemma check_stop:
  assumes "endswith g ''.json''" and "snd (snd (process_file env m g c))"
  shows "state_after (check_for_changes m ((g, c, env) # rest)) = fst (process_file env m g c)"
    and "log_of (check_for_changes m ((g, c, env) # rest))
         = map (Pair g) (fst (snd (process_file env m g c)))"
    and "escaped (check_for_changes m ((g, c, env) # rest))"
  unfolding check_Cons using assms by (simp_all add: state_after_def log_of_def escaped_def)

lemma check_go:
  assumes "endswith g ''.json''" and "\<not> snd (snd (process_file env m g c))"
  shows "state_after (check_for_changes m ((g, c, env) # rest))
         = state_after (check_for_changes (fst (process_file env m g c)) rest)"
    and "log_of (check_for_changes m ((g, c, env) # rest))
         = map (Pair g) (fst (snd (process_file env m g c)))
           @ log_of (check_for_changes (fst (process_file env m g c)) rest)"
    and "escaped (check_for_changes m ((g, c, env) # rest))
         = escaped (check_for_changes (fst (process_file env m g c)) rest)"
  unfolding check_Cons using assms by (simp_all add: state_after_def log_of_def escaped_def)

declare check_for_changes.simps [simp del]

lemma check_absent:
  assumes "f \<notin> set (map fst listing)"
  shows "alerts_for f (log_of (check_for_changes m listing)) = []
       \<and> previous_states (state_after (check_for_changes m listing)) f = previous_states m f
       \<and> price_transition_states (state_after (check_for_changes m listing)) f
           = price_transition_states m f"
  using assms
proof (induction listing arbitrary: m)
  case Nil
  show ?case by (simp add: check_Nil alerts_for_def)
next
  case (Cons x rest)
  obtain g c env where x: "x = (g, c, env)" by (cases x)
  from Cons.prems x have gf: "g \<noteq> f" and nr: "f \<notin> set (map fst rest)" by auto
  show ?case
  proof (cases "endswith g ''.json''")
    case False
    show ?thesis unfolding x check_skip [OF False] by (rule Cons.IH [OF nr])
  next
    case e: True
    show ?thesis
    proof (cases "snd (snd (process_file env m g c))")
      case True
      show ?thesis
        unfolding x check_stop [OF e True]
        by (simp add: alerts_for_other [OF gf] process_file_other [OF gf])
    next
      case False
      show ?thesis
        unfolding x check_go [OF e False]
        by (simp add: alerts_for_append alerts_for_other [OF gf] Cons.IH [OF nr]
            process_file_other [OF gf])
    qed
  qed
qed

lemma reaches_head: "reaches m ((f, c, env) # rest) f"
  by (simp add: reaches_def check_Nil)

lemma reaches_skip:
  "g \<noteq> f \<Longrightarrow> \<not> endswith g ''.json'' \<Longrightarrow>
   reaches m ((g, c, env) # rest) f = reaches m rest f"
  by (simp add: reaches_def check_skip)

lemma reaches_stop:
  assumes "g \<noteq> f" and "endswith g ''.json''" and "snd (snd (process_file env m g c))"
  shows "\<not> reaches m ((g, c, env) # rest) f"
  using assms(1) check_stop(3) [OF assms(2,3)] by (simp add: reaches_def)

lemma reaches_go:
  assumes "g \<noteq> f" and "endswith g ''.json''" and "\<not> snd (snd (process_file env m g c))"
  shows "reaches m ((g, c, env) # rest) f = reaches (fst (process_file env m g c)) rest f"
  using assms(1) check_go(3) [OF assms(2,3)] by (simp add: reaches_def)

lemma check_present:
  assumes "distinct (map fst listing)" and "(f, c, env) \<in> set listing"
    and "endswith f ''.json''"
  shows "alerts_for f (log_of (check_for_changes m listing))
           = (if reaches m listing f then fst (snd (process_file env m f c)) else [])
       \<and> previous_states (state_after (check_for_changes m listing)) f
           = (if reaches m listing f then previous_states (fst (process_file env m f c)) f
              else previous_states m f)
       \<and> price_transition_states (state_after (check_for_changes m listing)) f
           = (if reaches m listing f
              then price_transition_states (fst (process_file env m f c)) f
              else price_transition_states m f)"
  using assms(1,2)
proof (induction listing arbitrary: m)
  case Nil
  then show ?case by simp
next
  case (Cons x rest)
  obtain g c' env' where x: "x = (g, c', env')" by (cases x)
  show ?case
  proof (cases "g = f")
    case True
    with Cons.prems x have c: "c' = c" "env' = env" and nr: "f \<notin> set (map fst rest)"
      by (auto simp: rev_image_eqI)
    show ?thesis
    proof (cases "snd (snd (process_file env m f c))")
      case stop: True
      show ?thesis
        unfolding x True c check_stop [OF assms(3) stop]
        by (simp add: reaches_head alerts_for_same)
    next
      case go: False
      show ?thesis
        unfolding x True c check_go [OF assms(3) go]
        by (simp add: reaches_head alerts_for_append alerts_for_same check_absent [OF nr])
    qed
  next
    case gf: False
    with Cons.prems x have d: "distinct (map fst rest)" and i: "(f, c, env) \<in> set rest" by auto
    show ?thesis
    proof (cases "endswith g ''.json''")
      case False
      show ?thesis
        unfolding x check_skip [OF False] reaches_skip [OF gf False]
        by (rule Cons.IH [OF d i])
    next
      case e: True
      show ?thesis
      proof (cases "snd (snd (process_file env' m g c'))")
        case stop: True
        show ?thesis
          unfolding x check_stop [OF e stop]
          by (simp add: reaches_stop [OF gf e stop] alerts_for_other [OF gf]
              process_file_other [OF gf])
      next
        case go: False
        let ?m1 = "fst (process_file env' m g c')"
        have a: "previous_states ?m1 f = previous_states m f"
          and b: "price_transition_states ?m1 f = price_transition_states m f"
          using process_file_other [OF gf, of env' m c'] by simp_all
        show ?thesis
          unfolding x check_go [OF e go] reaches_go [OF gf e go]
          by (simp add: Cons.IH [OF d i] process_file_cong [OF a b] a b alerts_for_append
              alerts_for_other [OF gf])
      qed
    qed
  qed
qed

lemma wf_listing_names:
  assumes "wf_listing listing"
  shows "distinct (map fst listing)"
proof -
  have e: "map fst (map (\<lambda>(f, c, env). (f, c)) listing) = map fst listing"
    by (induction listing) auto
  from assms have "distinct (map fst (map (\<lambda>(f, c, env). (f, c)) listing))"
    unfolding wf_listing_def wf_files_def by (rule conjunct1)
  then show ?thesis by (simp only: e)
qed

lemma wf_listing_content:
  "wf_listing listing \<Longrightarrow> (f, Some d, env) \<in> set listing \<Longrightarrow> distinct (keys_of d)"
  by (force simp: wf_listing_def wf_files_def list_all_iff)

section \<open>Announcements, trading status, ignored fields\<close>

lemma sent_subset: "set (sent steps) \<subseteq> snd ` set steps"
proof (induction steps)
  case Nil
  show ?case by simp
next
  case (Cons x steps)
  obtain oc a where x: "x = (oc, a)" by (cases x)
  from Cons.IH show ?case by (cases oc) (auto simp: x)
qed

lemma filter_sent_none:
  assumes "\<And>oc a. (oc, a) \<in> set steps \<Longrightarrow> \<not> P a"
  shows "filter P (sent steps) = []"
proof -
  have "\<And>a. a \<in> set (sent steps) \<Longrightarrow> \<not> P a"
    using sent_subset [of steps] assms by auto
  then show ?thesis by (simp add: filter_empty_conv)
qed

lemma filter_sent_head:
  assumes "\<And>oc a. (oc, a) \<in> set steps \<Longrightarrow> \<not> P a"
  shows "length (filter P (sent (x # steps))) \<le> 1"
proof -
  obtain oc a where x: "x = (oc, a)" by (cases x)
  show ?thesis
    using filter_sent_none [of steps P, OF assms] by (cases oc) (simp_all add: x)
qed

lemma is_tradeable_send_new [simp]: "\<not> is_tradeable (send_new_token_alert t d)"
  by (simp add: send_new_token_alert_def Let_def)

lemma is_changes_send_new [simp]: "\<not> is_changes (send_new_token_alert t d)"
  by (simp add: send_new_token_alert_def Let_def)

lemma is_new_token_send_new [simp]: "is_new_token (send_new_token_alert t d)"
  by (simp add: send_new_token_alert_def Let_def)

lemma changed_fields_send_new [simp]: "changed_fields (send_new_token_alert t d) = {}"
  by (simp add: send_new_token_alert_def Let_def)

lemma process_file_trading:
  assumes "price_transition_states m f = Some True"
    and "case c of None \<Rightarrow> True | Some cur \<Rightarrow> dict_get cur ''midPx'' \<noteq> JNull"
  shows "filter is_tradeable (fst (snd (process_file env m f c))) = []
       \<and> price_transition_states (fst (process_file env m f c)) f = Some True"
proof (cases c)
  case None
  with assms(1) show ?thesis by (simp add: process_file_None)
next
  case (Some cur)
  from assms(1) have s: "stored_status m f" by (simp add: stored_status_def)
  have "filter is_tradeable (fst (snd (process_file env m f (Some cur)))) = []"
    unfolding process_file_alerts
    by (rule filter_sent_none) (auto simp: s split: if_splits)
  moreover have "price_transition_states (fst (process_file env m f (Some cur))) f = Some True"
    using assms Some by (simp add: process_file_flag s)
  ultimately show ?thesis by (simp add: Some)
qed

lemma check_trading:
  assumes "price_transition_states m f = Some True"
    and "list_all (\<lambda>(g, c, env). g = f \<longrightarrow>
            (case c of None \<Rightarrow> True | Some cur \<Rightarrow> dict_get cur ''midPx'' \<noteq> JNull)) listing"
  shows "filter is_tradeable (alerts_for f (log_of (check_for_changes m listing))) = []
       \<and> price_transition_states (state_after (check_for_changes m listing)) f = Some True"
  using assms
proof (induction listing arbitrary: m)
  case Nil
  then show ?case by (simp add: check_Nil alerts_for_def)
next
  case (Cons x rest)
  obtain g c env where x: "x = (g, c, env)" by (cases x)
  from Cons.prems(2) x
  have r: "list_all (\<lambda>(g, c, env). g = f \<longrightarrow>
            (case c of None \<Rightarrow> True | Some cur \<Rightarrow> dict_get cur ''midPx'' \<noteq> JNull)) rest"
    and h: "g = f \<Longrightarrow> (case c of None \<Rightarrow> True | Some cur \<Rightarrow> dict_get cur ''midPx'' \<noteq> JNull)"
    by simp_all
  have here: "filter is_tradeable (alerts_for f (map (Pair g) (fst (snd (process_file env m g c))))) = []
      \<and> price_transition_states (fst (process_file env m g c)) f = Some True"
  proof (cases "g = f")
    case True
    with process_file_trading [OF Cons.prems(1) h [OF True], of env] show ?thesis
      by (simp add: alerts_for_same)
  next
    case False
    with process_file_other(2) [OF False, of env m c] Cons.prems(1) show ?thesis
      by (simp add: alerts_for_other)
  qed
  show ?case
  proof (cases "endswith g ''.json''")
    case False
    show ?thesis unfolding x check_skip [OF False] by (rule Cons.IH [OF Cons.prems(1) r])
  next
    case e: True
    show ?thesis
    proof (cases "snd (snd (process_file env m g c))")
      case True
      show ?thesis unfolding x check_stop [OF e True] using here by simp
    next
      case False
      show ?thesis
        unfolding x check_go [OF e False]
        using here Cons.IH [OF conjunct2 [OF here] r] by (simp add: alerts_for_append)
    qed
  qed
qed

lemma run_Cons:
  "run_cycles m (listing # later) =
     (fst (run_cycles (state_after (check_for_changes m listing)) later),
      log_of (check_for_changes m listing)
      @ snd (run_cycles (state_after (check_for_changes m listing)) later))"
  by (simp add: Let_def split: prod.splits)

lemma process_file_no_ignored:
  assumes "stored_clean m" and "a \<in> set (fst (snd (process_file env m f c)))"
  shows "changed_fields a \<inter> ignored_fields = {}"
proof (cases c)
  case None
  with assms(2) show ?thesis by (simp add: process_file_None)
next
  case (Some cur)
  have "set (keys_of (stored_record m f)) \<inter> ignored_fields = {}"
  proof (cases "previous_states m f")
    case None
    then show ?thesis by (simp add: stored_record_def keys_of_def)
  next
    case (Some d)
    with assms(1) have "set (keys_of d) \<inter> ignored_fields = {}"
      unfolding stored_clean_def by blast
    with Some show ?thesis by (simp add: stored_record_def)
  qed
  moreover have "set (keys_of (clean cur)) \<inter> ignored_fields = {}"
    by (auto simp: keys_clean)
  ultimately have k: "set (keys_of (compute_changes (stored_record m f) (clean cur) (stored_status m f)))
      \<inter> ignored_fields = {}"
    using keys_compute_changes [of "stored_record m f" "clean cur" "stored_status m f"] by blast
  from assms(2) sent_subset have "a \<in> snd ` set
     ((if previous_states m f = None
       then [(new_step env, send_new_token_alert (token_id_of f) cur)] else [])
      @ (if \<not> stored_status m f \<and> dict_get cur ''midPx'' \<noteq> JNull
         then [(trade_step env, TradeableAlert (token_id_of f) (dict_get cur ''midPx''))]
         else [])
      @ (if compute_changes (stored_record m f) (clean cur) (stored_status m f) \<noteq> []
         then [(change_step env,
                ChangesAlert (token_id_of f)
                  (compute_changes (stored_record m f) (clean cur) (stored_status m f)))]
         else []))"
    unfolding Some process_file_alerts by blast
  with k show ?thesis by (auto split: if_splits)
qed

lemma stored_clean_process_file:
  assumes "stored_clean m"
  shows "stored_clean (fst (process_file env m f c))"
  unfolding stored_clean_def
proof (intro allI impI)
  fix g d
  assume p: "previous_states (fst (process_file env m f c)) g = Some d"
  show "set (keys_of d) \<inter> ignored_fields = {}"
  proof (cases "g = f")
    case False
    with p process_file_other(1) [of f g env m c] have "previous_states m g = Some d" by simp
    with assms show ?thesis unfolding stored_clean_def by blast
  next
    case True
    show ?thesis
    proof (cases c)
      case None
      with p have "previous_states m g = Some d" by (simp add: process_file_None)
      with assms show ?thesis unfolding stored_clean_def by blast
    next
      case (Some cur)
      with p True have "previous_states m f = Some d \<or> d = clean cur"
        by (auto simp: process_file_record split: if_splits)
      then show ?thesis
      proof
        assume "previous_states m f = Some d"
        with assms show ?thesis unfolding stored_clean_def by blast
      next
        assume "d = clean cur"
        then show ?thesis by (auto simp: keys_clean)
      qed
    qed
  qed
qed

lemma stored_clean_check:
  "stored_clean m \<Longrightarrow> stored_clean (state_after (check_for_changes m listing))"
proof (induction listing arbitrary: m)
  case Nil
  then show ?case by (simp add: check_Nil)
next
  case (Cons x rest)
  obtain g c env where x: "x = (g, c, env)" by (cases x)
  note p = stored_clean_process_file [OF Cons.prems, of env g c]
  show ?case
  proof (cases "endswith g ''.json''")
    case False
    show ?thesis unfolding x check_skip [OF False] by (rule Cons.IH [OF Cons.prems])
  next
    case e: True
    show ?thesis
    proof (cases "snd (snd (process_file env m g c))")
      case True
      show ?thesis unfolding x check_stop [OF e True] by (rule p)
    next
      case False
      show ?thesis unfolding x check_go [OF e False] by (rule Cons.IH [OF p])
    qed
  qed
qed

lemma stored_clean_load:
  "stored_clean m \<Longrightarrow> stored_clean (load_initial_states m files)"
proof (induction files arbitrary: m)
  case Nil
  then show ?case by simp
next
  case (Cons x rest)
  obtain g c where x: "x = (g, c)" by (cases x)
  show ?case
  proof (cases c)
    case None
    with Cons show ?thesis by (simp add: x)
  next
    case (Some d)
    have "stored_clean (m\<lparr>price_transition_states :=
                       (price_transition_states m)(g \<mapsto> dict_get d ''midPx'' \<noteq> JNull),
                     previous_states := (previous_states m)(g \<mapsto> clean d)\<rparr>)"
      using Cons.prems by (auto simp: stored_clean_def keys_clean)
    from Cons.IH [OF this] Cons.IH [OF Cons.prems] show ?thesis by (simp add: x Some)
  qed
qed

lemma reachable_stored_clean: "reachable m \<Longrightarrow> stored_clean m"
proof (induction rule: reachable.induct)
  case (start files)
  show ?case by (rule stored_clean_load) (simp add: stored_clean_def init_monitor_def)
next
  case (cycle m listing)
  then show ?case by (simp add: stored_clean_check)
qed

lemma check_no_ignored:
  assumes "stored_clean m" and "(g, a) \<in> set (log_of (check_for_changes m listing))"
  shows "changed_fields a \<inter> ignored_fields = {}"
  using assms
proof (induction listing arbitrary: m)
  case Nil
  then show ?case by (simp add: check_Nil)
next
  case (Cons x rest)
  obtain h c env where x: "x = (h, c, env)" by (cases x)
  show ?case
  proof (cases "endswith h ''.json''")
    case False
    with Cons.prems(2) have "(g, a) \<in> set (log_of (check_for_changes m rest))"
      by (simp add: x check_skip)
    with Cons.prems(1) show ?thesis by (rule Cons.IH)
  next
    case e: True
    show ?thesis
    proof (cases "snd (snd (process_file env m h c))")
      case True
      with Cons.prems(2) have "a \<in> set (fst (snd (process_file env m h c)))"
        by (auto simp: x check_stop [OF e True])
      with Cons.prems(1) show ?thesis by (rule process_file_no_ignored)
    next
      case False
      from Cons.prems(2) consider
        (here) "a \<in> set (fst (snd (process_file env m h c)))"
        | (rest) "(g, a) \<in> set (log_of (check_for_changes (fst (process_file env m h c)) rest))"
        by (auto simp: x check_go [OF e False])
      then show ?thesis
      proof cases
        case here
        with Cons.prems(1) show ?thesis by (rule process_file_no_ignored)
      next
        case rest
        with stored_clean_process_file [OF Cons.prems(1)] show ?thesis by (rule Cons.IH)
      qed
    qed
  qed
qed

lemma process_file_cleaned:
  assumes "map_option clean c = map_option clean c'"
  shows "process_file env m f c = process_file env m f c'"
proof (cases c)
  case None
  with assms show ?thesis by simp
next
  case (Some cur)
  with assms obtain cur' where c': "c' = Some cur'" and e: "clean cur = clean cur'"
    by (cases c') auto
  have "dict_get cur ''midPx'' = dict_get cur' ''midPx''"
    using midPx_clean [of cur] midPx_clean [of cur'] e by simp
  then show ?thesis
    by (simp add: Some c' e process_file_def send_new_token_alert_def Let_def)
qed

lemma check_cleaned:
  assumes "same_cleaned listing listing'"
  shows "check_for_changes m listing = check_for_changes m listing'"
  using assms
proof (induction listing arbitrary: listing' m)
  case Nil
  then show ?case by (simp add: same_cleaned_def)
next
  case (Cons x rest)
  obtain g c env where x: "x = (g, c, env)" by (cases x)
  from Cons.prems x obtain c' rest' where l: "listing' = (g, c', env) # rest'"
    and e: "map_option clean c = map_option clean c'" and r: "same_cleaned rest rest'"
    by (cases listing') (auto simp: same_cleaned_def)
  show ?case
    unfolding x l check_Cons
    by (simp add: process_file_cleaned [OF e] Cons.IH [OF r])
qed

section \<open>Properties of the pair loop\<close>

lemma effects_known:
  "name \<in> known \<Longrightarrow> new_pair_effects known name tid env = ([], False)"
  by (simp add: new_pair_effects_def)

lemma effects_cases:
  "fst (new_pair_effects known name tid env) = []
   \<or> (\<exists>t d. fst (new_pair_effects known name tid env) = [SaveTokenDetails t d])
   \<or> (\<exists>t d. fst (new_pair_effects known name tid env)
              = [SaveTokenDetails t d, NotifyNewPair name d])"
  by (cases "notify_step env")
     (simp_all add: new_pair_effects_def step_alerts_def split: option.splits fetch_result.splits)

lemma effects_le:
  "length (new_pair_alerts p (fst (new_pair_effects known name tid env)))
     \<le> (if name = p then 1 else 0)"
  using effects_cases [of known name tid env]
  by (auto simp: new_pair_alerts_def)

lemma new_pair_alerts_append:
  "new_pair_alerts p (xs @ ys) = new_pair_alerts p xs @ new_pair_alerts p ys"
  by (simp add: new_pair_alerts_def)

lemma process_assets_Cons:
  "process_assets known ((a, env) # rest) current effs =
     (if snd (new_pair_effects known (pair_name a) (token_id a) env)
      then (insert (pair_name a) current,
            effs @ fst (new_pair_effects known (pair_name a) (token_id a) env), True)
      else process_assets known rest (insert (pair_name a) current)
             (effs @ fst (new_pair_effects known (pair_name a) (token_id a) env)))"
  by (simp split: prod.splits)

declare process_assets.simps(2) [simp del]

lemma process_assets_alerts_le:
  "length (new_pair_alerts p (fst (snd (process_assets known tokens current effs))))
     \<le> length (new_pair_alerts p effs) + count_list (names_of tokens) p"
proof (induction tokens arbitrary: current effs)
  case Nil
  show ?case by (simp add: names_of_def)
next
  case (Cons x tokens)
  obtain a env where x: "x = (a, env)" by (cases x)
  let ?e = "new_pair_effects known (pair_name a) (token_id a) env"
  have n: "names_of ((a, env) # tokens) = pair_name a # names_of tokens"
    by (simp add: names_of_def)
  note le = effects_le [of p known "pair_name a" "token_id a" env]
  show ?case
  proof (cases "snd ?e")
    case True
    with le show ?thesis
      by (simp add: x process_assets_Cons new_pair_alerts_append n split: if_splits)
  next
    case False
    with le Cons.IH [of "insert (pair_name a) current" "effs @ fst ?e"] show ?thesis
      by (simp add: x process_assets_Cons new_pair_alerts_append n split: if_splits)
  qed
qed

lemma process_assets_known:
  assumes "p \<in> known"
  shows "new_pair_alerts p (fst (snd (process_assets known tokens current effs)))
         = new_pair_alerts p effs"
proof (induction tokens arbitrary: current effs)
  case Nil
  show ?case by simp
next
  case (Cons x tokens)
  obtain a env where x: "x = (a, env)" by (cases x)
  let ?e = "new_pair_effects known (pair_name a) (token_id a) env"
  have q: "new_pair_alerts p (fst ?e) = []"
  proof (cases "pair_name a = p")
    case True
    with assms show ?thesis by (simp add: effects_known new_pair_alerts_def)
  next
    case False
    with effects_le [of p known "pair_name a" "token_id a" env] show ?thesis by simp
  qed
  show ?case
    by (cases "snd ?e")
       (simp_all add: x process_assets_Cons new_pair_alerts_append q Cons.IH)
qed

lemma process_assets_names:
  "\<not> snd (snd (process_assets known tokens current effs)) \<Longrightarrow>
   fst (process_assets known tokens current effs) = current \<union> set (names_of tokens)"
proof (induction tokens arbitrary: current effs)
  case Nil
  show ?case by (simp add: names_of_def)
next
  case (Cons x tokens)
  obtain a env where x: "x = (a, env)" by (cases x)
  let ?e = "new_pair_effects known (pair_name a) (token_id a) env"
  from Cons.prems have c: "\<not> snd ?e"
    by (auto simp: x process_assets_Cons split: if_splits)
  with Cons.prems have "\<not> snd (snd (process_assets known tokens (insert (pair_name a) current)
                                       (effs @ fst ?e)))"
    by (simp add: x process_assets_Cons)
  from Cons.IH [OF this] c show ?case
    by (simp add: x process_assets_Cons names_of_def)
qed

lemma process_assets_prefix:
  "\<exists>ys. fst (snd (process_assets known tokens current effs)) = effs @ ys"
proof (induction tokens arbitrary: current effs)
  case Nil
  show ?case by simp
next
  case (Cons x tokens)
  obtain a env where x: "x = (a, env)" by (cases x)
  let ?e = "new_pair_effects known (pair_name a) (token_id a) env"
  show ?case
  proof (cases "snd ?e")
    case True
    then show ?thesis by (simp add: x process_assets_Cons)
  next
    case False
    from Cons.IH [of "insert (pair_name a) current" "effs @ fst ?e"]
    obtain ys where "fst (snd (process_assets known tokens (insert (pair_name a) current)
                                 (effs @ fst ?e))) = (effs @ fst ?e) @ ys"
      by blast
    with False show ?thesis by (simp add: x process_assets_Cons)
  qed
qed

lemma process_assets_append:
  "process_assets known (xs @ ys) current effs =
     (if snd (snd (process_assets known xs current effs))
      then process_assets known xs current effs
      else process_assets known ys (fst (process_assets known xs current effs))
             (fst (snd (process_assets known xs current effs))))"
proof (induction xs arbitrary: current effs)
  case Nil
  show ?case by simp
next
  case (Cons x xs)
  obtain a env where x: "x = (a, env)" by (cases x)
  show ?case
    by (cases "snd (new_pair_effects known (pair_name a) (token_id a) env)")
       (simp_all add: x process_assets_Cons Cons.IH)
qed

lemma check_for_updates_None:
  "check_for_updates known None = (known, [], False)"
  by (simp add: check_for_updates_def)

lemma check_for_updates_Some:
  "check_for_updates known (Some tokens) =
     (if snd (snd (process_assets known tokens {} [])) then known
      else set (names_of tokens),
      fst (snd (process_assets known tokens {} [])),
      snd (snd (process_assets known tokens {} [])))"
proof -
  obtain c e r where p: "process_assets known tokens {} [] = (c, e, r)"
    by (cases "process_assets known tokens {} []")
  with process_assets_names [of known tokens "{}" "[]"] show ?thesis
    by (auto simp: check_for_updates_def)
qed

lemma cycle_known_after:
  "known_after (check_for_updates known md) =
     (case md of
        None \<Rightarrow> known
      | Some tokens \<Rightarrow>
          if interrupted (check_for_updates known md) then known else set (names_of tokens))"
  by (cases md)
     (simp_all add: check_for_updates_None check_for_updates_Some known_after_def interrupted_def)

lemma cycle_alerts_le:
  "length (new_pair_alerts p (effects_of (check_for_updates known md)))
     \<le> (case md of None \<Rightarrow> 0 | Some tokens \<Rightarrow> count_list (names_of tokens) p)"
proof (cases md)
  case None
  then show ?thesis by (simp add: check_for_updates_None effects_of_def new_pair_alerts_def)
next
  case (Some tokens)
  with process_assets_alerts_le [of p known tokens "{}" "[]"] show ?thesis
    by (simp add: check_for_updates_Some effects_of_def new_pair_alerts_def)
qed

lemma cycle_alerts_known:
  assumes "p \<in> known"
  shows "new_pair_alerts p (effects_of (check_for_updates known md)) = []"
proof (cases md)
  case None
  then show ?thesis by (simp add: check_for_updates_None effects_of_def new_pair_alerts_def)
next
  case (Some tokens)
  with process_assets_known [OF assms, of tokens "{}" "[]"] show ?thesis
    by (simp add: check_for_updates_Some effects_of_def new_pair_alerts_def)
qed

lemma run_updates_Cons:
  "run_updates known (md # later) =
     (fst (run_updates (known_after (check_for_updates known md)) later),
      effects_of (check_for_updates known md)
      @ snd (run_updates (known_after (check_for_updates known md)) later))"
  by (simp add: Let_def split: prod.splits)

lemma listed_in_names: "count_list xs p = 1 \<Longrightarrow> p \<in> set xs"
  using count_list_0_iff [of xs p] by auto

lemma known_stays_quiet:
  assumes "p \<in> known" and "stays_listed p cycles"
  shows "new_pair_alerts p (snd (run_updates known cycles)) = []"
  using assms
proof (induction cycles arbitrary: known)
  case Nil
  show ?case by (simp add: new_pair_alerts_def)
next
  case (Cons md later)
  from Cons.prems(2) have l: "stays_listed p later" by (simp add: stays_listed_def)
  have "p \<in> known_after (check_for_updates known md)"
  proof (cases md)
    case None
    with Cons.prems(1) show ?thesis by (simp add: cycle_known_after)
  next
    case (Some tokens)
    with Cons.prems(2) have "count_list (names_of tokens) p = 1" by (simp add: stays_listed_def)
    then have "p \<in> set (names_of tokens)" by (rule listed_in_names)
    with Cons.prems(1) Some show ?thesis by (simp add: cycle_known_after)
  qed
  from Cons.IH [OF this l] cycle_alerts_known [OF Cons.prems(1), of md] show ?case
    unfolding run_updates_Cons by (simp add: new_pair_alerts_append)
qed

lemma one_alert_from_listing:
  assumes "stays_listed p cycles" and "alerting_cycles_complete p known cycles"
  shows "length (new_pair_alerts p (snd (run_updates known cycles))) \<le> 1"
  using assms
proof (induction cycles arbitrary: known)
  case Nil
  show ?case by (simp add: new_pair_alerts_def)
next
  case (Cons md later)
  let ?r = "check_for_updates known md"
  from Cons.prems(1) have l: "stays_listed p later" by (simp add: stays_listed_def)
  from Cons.prems(2) have c: "new_pair_alerts p (effects_of ?r) = [] \<or> \<not> interrupted ?r"
    and a: "alerting_cycles_complete p (known_after ?r) later"
    by (simp_all add: Let_def)
  show ?case
  proof (cases "new_pair_alerts p (effects_of ?r) = []")
    case True
    with Cons.IH [OF l a] show ?thesis
      unfolding run_updates_Cons by (simp add: new_pair_alerts_append)
  next
    case False
    with c have ni: "\<not> interrupted ?r" by simp
    from False cycle_alerts_le [of p known md] obtain tokens where md: "md = Some tokens"
      by (cases md) auto
    with Cons.prems(1) have one: "count_list (names_of tokens) p = 1"
      by (simp add: stays_listed_def)
    then have "p \<in> set (names_of tokens)" by (rule listed_in_names)
    with ni md have "p \<in> known_after ?r" by (simp add: cycle_known_after)
    from known_stays_quiet [OF this l] cycle_alerts_le [of p known md] one md show ?thesis
      unfolding run_updates_Cons by (simp add: new_pair_alerts_append)
  qed
qed

section \<open>Evaluating the examples\<close>

lemmas cycle_eval = xyz_file_def xyz_in_def xyz_def xyz_marked_def xyz_unpriced_def xyz_loaded_def
  quiet_def init_monitor_def check_for_changes.simps process_file_def stored_status_def
  stored_record_def token_id_of_def endswith_def clean_def ignored_fields_def compute_changes_def
  keys_of_def has_key_def dict_get_def py_eq_def step_alerts_def send_new_token_alert_def
  send_discord_alert_def send_trading_status_alert_def alerts_for_def state_after_def log_of_def
  escaped_def reaches_def wf_listing_def wf_files_def Let_def

lemma reachable_xyz_loaded: "reachable (xyz_loaded mid)"
  unfolding xyz_loaded_def
  by (rule reachable.start) (simp add: xyz_file_def wf_files_def keys_of_def)

lemma xyz_member:
  "(''XYZ.json'', Some [(''name'', JStr ''XYZ''), (''midPx'', mid)], quiet) \<in> set (xyz mid)"
  by (simp add: xyz_def xyz_in_def)

lemma xyz_json: "endswith ''XYZ.json'' ''.json''"
  by (simp add: endswith_def)

lemmas pair_eval = purr_def hfun_def purr_details_def answers_def answers_then_def
  check_for_updates_def process_assets.simps new_pair_effects_def truthy_id_def
  truthy_details_def step_alerts_def new_pair_alerts_def names_of_def stays_listed_def
  listed_once_def unlisted_def known_after_def effects_of_def interrupted_def Let_def

section \<open>The claims\<close>

subsection \<open>Trading status\<close>

text \<open>
  Claim C1 (corrected). The stored status of a file is overwritten in every cycle that
  gets past the first two announcements with "the current \<open>midPx\<close> is non-null", and a
  tradeable alert is sent when the stored status is false or missing and the current
  \<open>midPx\<close> is non-null. So once the status is true, no run of cycles in which \<open>midPx\<close>
  is non-null whenever the file is read sends another tradeable alert for it, and the
  status stays true over that run, whatever raises on the way.
\<close>

theorem tradeable_once_while_priced:
  assumes "price_transition_states m f = Some True" and "never_null f cycles"
  shows "filter is_tradeable (alerts_for f (snd (run_cycles m cycles))) = []
       \<and> price_transition_states (fst (run_cycles m cycles)) f = Some True"
  using assms
proof (induction cycles arbitrary: m)
  case Nil
  then show ?case by (simp add: alerts_for_def)
next
  case (Cons listing later)
  from Cons.prems(2) have l: "list_all (\<lambda>(g, c, env). g = f \<longrightarrow>
            (case c of None \<Rightarrow> True | Some cur \<Rightarrow> dict_get cur ''midPx'' \<noteq> JNull)) listing"
    and n: "never_null f later"
    by (simp_all add: never_null_def)
  note c = check_trading [OF Cons.prems(1) l]
  show ?case
    unfolding run_Cons
    using c Cons.IH [OF conjunct2 [OF c] n] by (simp add: alerts_for_append)
qed

text \<open>
  The monitor starts on a priced file; over three cycles (the directory is empty in the
  second) the price moves and no tradeable alert is sent.
\<close>

theorem tradeable_once_while_priced_witness:
  "price_transition_states (xyz_loaded (JStr ''12.50'')) ''XYZ.json'' = Some True
   \<and> never_null ''XYZ.json'' [xyz (JStr ''13.00''), [], xyz (JStr ''12.75'')]
   \<and> filter is_tradeable
        (alerts_for ''XYZ.json''
           (snd (run_cycles (xyz_loaded (JStr ''12.50''))
                   [xyz (JStr ''13.00''), [], xyz (JStr ''12.75'')]))) = []
   \<and> price_transition_states
        (fst (run_cycles (xyz_loaded (JStr ''12.50''))
                [xyz (JStr ''13.00''), [], xyz (JStr ''12.75'')])) ''XYZ.json'' = Some True"
proof -
  have a: "price_transition_states (xyz_loaded (JStr ''12.50'')) ''XYZ.json'' = Some True"
    by (simp add: cycle_eval)
  have b: "never_null ''XYZ.json'' [xyz (JStr ''13.00''), [], xyz (JStr ''12.75'')]"
    by (simp add: never_null_def xyz_def xyz_in_def dict_get_def)
  from tradeable_once_while_priced [OF a b] a b show ?thesis by simp
qed

text \<open>
  Claim C1 as stated fails. The file starts with \<open>midPx\<close> null, then shows
  \<open>"12.50"\<close>, null, \<open>"13.00"\<close>, and nothing raises: two tradeable alerts are sent, and
  the stored status is true after the first cycle and false after the second.
\<close>

theorem tradeable_once_while_priced_counterexample:
  "filter is_tradeable
     (alerts_for ''XYZ.json''
        (snd (run_cycles (xyz_loaded JNull) [xyz (JStr ''12.50''), xyz JNull, xyz (JStr ''13.00'')])))
     = [TradeableAlert ''XYZ'' (JStr ''12.50''), TradeableAlert ''XYZ'' (JStr ''13.00'')]
   \<and> price_transition_states (fst (run_cycles (xyz_loaded JNull) [xyz (JStr ''12.50'')])) ''XYZ.json''
       = Some True
   \<and> price_transition_states (fst (run_cycles (xyz_loaded JNull) [xyz (JStr ''12.50''), xyz JNull]))
        ''XYZ.json''
       = Some False"
proof -
  have step: "state_after (check_for_changes (xyz_loaded a) (xyz b)) = xyz_loaded b" for a b
    by (simp add: cycle_eval)
  have l1: "log_of (check_for_changes (xyz_loaded JNull) (xyz (JStr ''12.50'')))
            = [(''XYZ.json'', TradeableAlert ''XYZ'' (JStr ''12.50'')),
               (''XYZ.json'', ChangesAlert ''XYZ'' [(''midPx'', (JNull, JStr ''12.50''))])]"
    by (simp add: cycle_eval)
  have l2: "log_of (check_for_changes (xyz_loaded (JStr ''12.50'')) (xyz JNull)) = []"
    by (simp add: cycle_eval)
  have l3: "log_of (check_for_changes (xyz_loaded JNull) (xyz (JStr ''13.00'')))
            = [(''XYZ.json'', TradeableAlert ''XYZ'' (JStr ''13.00'')),
               (''XYZ.json'', ChangesAlert ''XYZ'' [(''midPx'', (JNull, JStr ''13.00''))])]"
    by (simp add: cycle_eval)
  have f1: "price_transition_states (xyz_loaded (JStr ''12.50'')) ''XYZ.json'' = Some True"
    by (simp add: cycle_eval)
  have f0: "price_transition_states (xyz_loaded JNull) ''XYZ.json'' = Some False"
    by (simp add: cycle_eval)
  show ?thesis
    unfolding run_Cons step l1 l2 l3 by (simp add: alerts_for_def f1 f0)
qed

text \<open>
  Claim C3 (corrected). When the stored record has \<open>midPx\<close> null, the current record
  has it non-null and the stored status is false, a cycle that gets to the file
  announces the activation and then the changes, and the diff is not suppressed: it
  holds \<open>midPx\<close> as changed from \<open>None\<close> to the new value. The two announcements are
  cut at the first that raises, so when nothing raises exactly one tradeable alert with
  the new value is followed by the change alert. The status becomes true exactly when
  the file is reached and the tradeable announcement returns.
\<close>

theorem first_activation:
  assumes "wf_listing listing" and "(f, Some cur, env) \<in> set listing"
    and "endswith f ''.json''"
    and "previous_states m f = Some prev" and "map_of prev ''midPx'' = Some JNull"
    and "dict_get cur ''midPx'' \<noteq> JNull"
    and "price_transition_states m f = Some False"
  shows "alerts_for f (log_of (check_for_changes m listing))
           = (if reaches m listing f
              then sent [(trade_step env, TradeableAlert (token_id_of f) (dict_get cur ''midPx'')),
                         (change_step env,
                          ChangesAlert (token_id_of f) (compute_changes prev (clean cur) False))]
              else [])
       \<and> map_of (compute_changes prev (clean cur) False) ''midPx''
           = Some (JNull, dict_get cur ''midPx'')
       \<and> price_transition_states (state_after (check_for_changes m listing)) f
           = Some (reaches m listing f \<and> trade_step env = Returns)"
proof -
  have d: "distinct (map fst (clean cur))"
    using distinct_clean [OF wf_listing_content [OF assms(1,2)]] by (simp add: keys_of_def)
  have "map_of cur ''midPx'' = Some (dict_get cur ''midPx'')"
    using assms(6) by (auto simp: dict_get_def split: option.splits)
  then have c: "map_of (clean cur) ''midPx'' = Some (dict_get cur ''midPx'')"
    by (simp add: map_of_clean ignored_fields_def)
  have e: "map_of (compute_changes prev (clean cur) False) ''midPx''
           = Some (JNull, dict_get cur ''midPx'')"
    using assms(6) by (simp add: map_of_compute_changes [OF d] field_change_def c assms(5) py_eq_null)
  then have n: "compute_changes prev (clean cur) False \<noteq> []" by auto
  have s: "\<not> stored_status m f" "stored_record m f = prev"
    using assms(4,7) by (simp_all add: stored_status_def stored_record_def)
  have a: "fst (snd (process_file env m f (Some cur)))
           = sent [(trade_step env, TradeableAlert (token_id_of f) (dict_get cur ''midPx'')),
                   (change_step env,
                    ChangesAlert (token_id_of f) (compute_changes prev (clean cur) False))]"
    by (simp add: process_file_alerts s assms(4,6) n)
  have b: "price_transition_states (fst (process_file env m f (Some cur))) f
           = Some (trade_step env = Returns)"
    by (simp add: process_file_flag s assms(4,6,7))
  show ?thesis
    using check_present [OF wf_listing_names [OF assms(1)] assms(2,3), of m] e
    by (simp add: a b assms(7))
qed

text \<open>The scenario of the specification, \<open>midPx\<close> from null to \<open>"12.50"\<close>.\<close>

theorem first_activation_witness:
  "alerts_for ''XYZ.json'' (log_of (check_for_changes (xyz_loaded JNull) (xyz (JStr ''12.50''))))
     = [TradeableAlert ''XYZ'' (JStr ''12.50''),
        ChangesAlert ''XYZ'' [(''midPx'', (JNull, JStr ''12.50''))]]
   \<and> price_transition_states
        (state_after (check_for_changes (xyz_loaded JNull) (xyz (JStr ''12.50'')))) ''XYZ.json''
     = Some True"
proof -
  have w: "wf_listing (xyz (JStr ''12.50''))"
    by (simp add: cycle_eval)
  have p: "previous_states (xyz_loaded JNull) ''XYZ.json''
           = Some [(''name'', JStr ''XYZ''), (''midPx'', JNull)]"
    by (simp add: cycle_eval)
  have n: "map_of [(''name'', JStr ''XYZ''), (''midPx'', JNull)] ''midPx'' = Some JNull"
    by simp
  have c: "dict_get [(''name'', JStr ''XYZ''), (''midPx'', JStr ''12.50'')] ''midPx'' \<noteq> JNull"
    by (simp add: dict_get_def)
  have f: "price_transition_states (xyz_loaded JNull) ''XYZ.json'' = Some False"
    by (simp add: cycle_eval)
  from first_activation [OF w xyz_member xyz_json p n c f] show ?thesis
    by (simp add: cycle_eval)
qed

text \<open>
  Claim C3 as stated fails: in that scenario, with nothing raising, the change alert
  for \<open>midPx\<close> follows the tradeable alert.
\<close>

theorem first_activation_counterexample:
  "previous_states (xyz_loaded JNull) ''XYZ.json'' = Some [(''name'', JStr ''XYZ''), (''midPx'', JNull)]
   \<and> price_transition_states (xyz_loaded JNull) ''XYZ.json'' = Some False
   \<and> alerts_for ''XYZ.json'' (log_of (check_for_changes (xyz_loaded JNull) (xyz (JStr ''12.50''))))
     = [TradeableAlert ''XYZ'' (JStr ''12.50''),
        ChangesAlert ''XYZ'' [(''midPx'', (JNull, JStr ''12.50''))]]"
  by (simp add: cycle_eval)




subsection \<open>New files, unchanged files, missing files\<close>

text \<open>
  Claim C2 (corrected). For a file with no stored record, a cycle that gets to the file
  makes these announcements in order, cut at the first that raises: the new-token one;
  the now-tradeable one when the stored status is false or missing and \<open>midPx\<close> is
  non-null; and, since the record is also compared with the empty dictionary, one change
  alert that lists every field of the cleaned record as new (\<open>None\<close> to its value,
  \<open>midPx\<close> left out when the stored status is true), unless there is no such field. At
  most one new-token alert is sent in the cycle.
\<close>

theorem new_file_alerts:
  assumes "wf_listing listing" and "(f, Some cur, env) \<in> set listing"
    and "endswith f ''.json''"
    and "previous_states m f = None"
  shows "alerts_for f (log_of (check_for_changes m listing))
         = (if reaches m listing f
            then sent ((new_step env, send_new_token_alert (token_id_of f) cur)
                       # (if \<not> stored_status m f \<and> dict_get cur ''midPx'' \<noteq> JNull
                          then [(trade_step env,
                                 TradeableAlert (token_id_of f) (dict_get cur ''midPx''))]
                          else [])
                       @ (if all_new (stored_status m f) (clean cur) = [] then []
                          else [(change_step env,
                                 ChangesAlert (token_id_of f)
                                   (all_new (stored_status m f) (clean cur)))]))
            else [])
       \<and> length (filter is_new_token (alerts_for f (log_of (check_for_changes m listing)))) \<le> 1"
proof -
  let ?rest = "(if \<not> stored_status m f \<and> dict_get cur ''midPx'' \<noteq> JNull
                then [(trade_step env, TradeableAlert (token_id_of f) (dict_get cur ''midPx''))]
                else [])
               @ (if all_new (stored_status m f) (clean cur) = [] then []
                  else [(change_step env,
                         ChangesAlert (token_id_of f) (all_new (stored_status m f) (clean cur)))])"
  have r: "stored_record m f = []" using assms(4) by (simp add: stored_record_def)
  have c: "compute_changes [] (clean cur) (stored_status m f) = all_new (stored_status m f) (clean cur)"
    using distinct_clean [OF wf_listing_content [OF assms(1,2)]] by (rule compute_changes_new)
  have a: "fst (snd (process_file env m f (Some cur)))
           = sent ((new_step env, send_new_token_alert (token_id_of f) cur) # ?rest)"
    unfolding process_file_alerts r c by (auto simp: assms(4))
  have l: "alerts_for f (log_of (check_for_changes m listing))
           = (if reaches m listing f
              then sent ((new_step env, send_new_token_alert (token_id_of f) cur) # ?rest)
              else [])"
    using check_present [OF wf_listing_names [OF assms(1)] assms(2,3), of m] by (simp add: a)
  have "length (filter is_new_token
                  (sent ((new_step env, send_new_token_alert (token_id_of f) cur) # ?rest))) \<le> 1"
    by (rule filter_sent_head) (auto split: if_splits)
  with l show ?thesis by simp
qed

text \<open>
  A new file with a price: the three alerts, in the order they are sent; and the one
  alert that is sent when the \<open>print\<close> of the second announcement raises.
\<close>

theorem new_file_alerts_witness:
  "previous_states (load_initial_states init_monitor []) ''XYZ.json'' = None
   \<and> alerts_for ''XYZ.json''
        (log_of (check_for_changes (load_initial_states init_monitor []) (xyz (JStr ''12.50''))))
     = [NewTokenAlert ''XYZ'' True (Some (JStr ''12.50'')),
        TradeableAlert ''XYZ'' (JStr ''12.50''),
        ChangesAlert ''XYZ'' [(''name'', (JNull, JStr ''XYZ'')), (''midPx'', (JNull, JStr ''12.50''))]]
   \<and> alerts_for ''XYZ.json''
        (log_of (check_for_changes (load_initial_states init_monitor [])
                   (xyz_in (quiet\<lparr>trade_step := PrintRaises\<rparr>) (JStr ''12.50''))))
     = [NewTokenAlert ''XYZ'' True (Some (JStr ''12.50''))]"
proof -
  have w: "wf_listing (xyz_in env (JStr ''12.50''))" for env
    by (simp add: cycle_eval)
  have i: "(''XYZ.json'', Some [(''name'', JStr ''XYZ''), (''midPx'', JStr ''12.50'')], env)
           \<in> set (xyz_in env (JStr ''12.50''))" for env
    by (simp add: xyz_in_def)
  have p: "previous_states (load_initial_states init_monitor []) ''XYZ.json'' = None"
    by (simp add: init_monitor_def)
  have q: "xyz_in quiet (JStr ''12.50'') = xyz (JStr ''12.50'')"
    by (simp add: xyz_def)
  from new_file_alerts [OF w i xyz_json p, of quiet]
    new_file_alerts [OF w i xyz_json p, of "quiet\<lparr>trade_step := PrintRaises\<rparr>"] p
  show ?thesis
    unfolding q by (simp add: cycle_eval all_new_def)
qed

text \<open>
  Claim C2 as stated fails. The scenario of the specification, no stored record and
  \<open>{"name": "XYZ", "midPx": null}\<close>, with nothing raising: beside the new-token alert,
  a change alert lists \<open>name\<close> and \<open>midPx\<close> as new fields.
\<close>

theorem new_file_alerts_counterexample:
  "previous_states (load_initial_states init_monitor []) ''XYZ.json'' = None
   \<and> alerts_for ''XYZ.json''
        (log_of (check_for_changes (load_initial_states init_monitor []) (xyz JNull)))
     = [NewTokenAlert ''XYZ'' False None,
        ChangesAlert ''XYZ'' [(''name'', (JNull, JStr ''XYZ'')), (''midPx'', (JNull, JNull))]]"
  by (simp add: cycle_eval)

text \<open>
  Claim C8 (corrected). When the cleaned current record of a file equals its stored
  record and no field of it holds \<open>NaN\<close>, the diff is empty and the cycle sends no change
  alert for the file. When moreover the stored status says whether the current \<open>midPx\<close>
  is non-null, the cycle sends no alert at all for the file and the file's entries in
  both tables are what they were.
\<close>

theorem unchanged_record_silent:
  assumes "wf_listing listing" and "(f, Some cur, env) \<in> set listing"
    and "endswith f ''.json''"
    and "previous_states m f = Some (clean cur)" and "nan_free (clean cur)"
  shows "compute_changes (clean cur) (clean cur) was = []
       \<and> filter is_changes (alerts_for f (log_of (check_for_changes m listing))) = []
       \<and> (price_transition_states m f = Some (dict_get cur ''midPx'' \<noteq> JNull) \<longrightarrow>
            alerts_for f (log_of (check_for_changes m listing)) = []
            \<and> previous_states (state_after (check_for_changes m listing)) f = previous_states m f
            \<and> price_transition_states (state_after (check_for_changes m listing)) f
                = price_transition_states m f)"
proof -
  have self: "\<And>w. compute_changes (clean cur) (clean cur) w = []"
    using distinct_clean [OF wf_listing_content [OF assms(1,2)]] assms(5)
    by (rule compute_changes_self)
  have r: "stored_record m f = clean cur" using assms(4) by (simp add: stored_record_def)
  have a: "fst (snd (process_file env m f (Some cur)))
           = sent (if \<not> stored_status m f \<and> dict_get cur ''midPx'' \<noteq> JNull
                   then [(trade_step env, TradeableAlert (token_id_of f) (dict_get cur ''midPx''))]
                   else [])"
    by (simp add: process_file_alerts assms(4) r self)
  have "filter is_changes (fst (snd (process_file env m f (Some cur)))) = []"
    unfolding a by (rule filter_sent_none) (auto split: if_splits)
  then have quiet: "filter is_changes (alerts_for f (log_of (check_for_changes m listing))) = []"
    using check_present [OF wf_listing_names [OF assms(1)] assms(2,3), of m] by simp
  have agree: "alerts_for f (log_of (check_for_changes m listing)) = []
            \<and> previous_states (state_after (check_for_changes m listing)) f = previous_states m f
            \<and> price_transition_states (state_after (check_for_changes m listing)) f
                = price_transition_states m f"
    if flag: "price_transition_states m f = Some (dict_get cur ''midPx'' \<noteq> JNull)"
  proof -
    from flag have s: "stored_status m f = (dict_get cur ''midPx'' \<noteq> JNull)"
      by (simp add: stored_status_def)
    have "fst (snd (process_file env m f (Some cur))) = []"
      by (simp add: a s)
    moreover have "previous_states (fst (process_file env m f (Some cur))) f = previous_states m f"
      by (simp add: process_file_record assms(4) r self s)
    moreover have "price_transition_states (fst (process_file env m f (Some cur))) f
                   = price_transition_states m f"
      by (simp add: process_file_flag assms(4) s flag)
    ultimately show ?thesis
      using check_present [OF wf_listing_names [OF assms(1)] assms(2,3), of m] by simp
  qed
  from self quiet agree show ?thesis by blast
qed

text \<open>The file is unchanged but for its \<open>markPx\<close>, which the filter drops.\<close>

theorem unchanged_record_silent_witness:
  "reachable (xyz_loaded (JStr ''12.50''))
   \<and> alerts_for ''XYZ.json''
        (log_of (check_for_changes (xyz_loaded (JStr ''12.50''))
                   (xyz_marked (JStr ''12.50'') (JStr ''12.40''))))
       = []
   \<and> previous_states
        (state_after (check_for_changes (xyz_loaded (JStr ''12.50''))
                        (xyz_marked (JStr ''12.50'') (JStr ''12.40''))))
        ''XYZ.json''
       = Some [(''name'', JStr ''XYZ''), (''midPx'', JStr ''12.50'')]"
proof -
  have r: "reachable (xyz_loaded (JStr ''12.50''))"
    by (rule reachable_xyz_loaded)
  have w: "wf_listing (xyz_marked (JStr ''12.50'') (JStr ''12.40''))"
    by (simp add: cycle_eval)
  have i: "(''XYZ.json'',
            Some [(''name'', JStr ''XYZ''), (''midPx'', JStr ''12.50''), (''markPx'', JStr ''12.40'')],
            quiet)
           \<in> set (xyz_marked (JStr ''12.50'') (JStr ''12.40''))"
    by (simp add: xyz_marked_def)
  have p: "previous_states (xyz_loaded (JStr ''12.50'')) ''XYZ.json''
           = Some (clean [(''name'', JStr ''XYZ''), (''midPx'', JStr ''12.50''),
                          (''markPx'', JStr ''12.40'')])"
    by (simp add: cycle_eval)
  have n: "nan_free (clean [(''name'', JStr ''XYZ''), (''midPx'', JStr ''12.50''),
                            (''markPx'', JStr ''12.40'')])"
    by (simp add: nan_free_def clean_def ignored_fields_def)
  have f: "price_transition_states (xyz_loaded (JStr ''12.50'')) ''XYZ.json''
           = Some (dict_get [(''name'', JStr ''XYZ''), (''midPx'', JStr ''12.50''),
                             (''markPx'', JStr ''12.40'')] ''midPx'' \<noteq> JNull)"
    by (simp add: cycle_eval)
  from unchanged_record_silent [OF w i xyz_json p n] f r p show ?thesis
    by (simp add: clean_def ignored_fields_def)
qed

text \<open>
  Claim C8 as stated fails, in two ways. A field that holds \<open>NaN\<close> differs from itself:
  the unchanged file is reported as changed. And the stored status can lag behind the
  stored record: a cycle whose change announcement raises writes the status (here
  false, the price having gone) but not the record; when the file then shows the stored
  record again, a tradeable alert is sent.
\<close>

theorem unchanged_record_silent_counterexample:
  "previous_states
     (load_initial_states init_monitor
        [(''XYZ.json'', Some [(''name'', JStr ''XYZ''), (''ratio'', JFloat NaN)])]) ''XYZ.json''
     = Some (clean [(''name'', JStr ''XYZ''), (''ratio'', JFloat NaN)])
   \<and> alerts_for ''XYZ.json''
        (log_of (check_for_changes
           (load_initial_states init_monitor
              [(''XYZ.json'', Some [(''name'', JStr ''XYZ''), (''ratio'', JFloat NaN)])])
           [(''XYZ.json'', Some [(''name'', JStr ''XYZ''), (''ratio'', JFloat NaN)], quiet)]))
     = [ChangesAlert ''XYZ'' [(''ratio'', (JFloat NaN, JFloat NaN))]]
   \<and> previous_states
        (state_after (check_for_changes (xyz_loaded (JStr ''12.50''))
           [(''XYZ.json'', Some [(''name'', JStr ''X''), (''midPx'', JNull)],
             quiet\<lparr>change_step := PrintRaises\<rparr>)])) ''XYZ.json''
     = Some (clean [(''name'', JStr ''XYZ''), (''midPx'', JStr ''12.50'')])
   \<and> alerts_for ''XYZ.json''
        (log_of (check_for_changes
           (state_after (check_for_changes (xyz_loaded (JStr ''12.50''))
              [(''XYZ.json'', Some [(''name'', JStr ''X''), (''midPx'', JNull)],
                quiet\<lparr>change_step := PrintRaises\<rparr>)]))
           (xyz (JStr ''12.50''))))
     = [TradeableAlert ''XYZ'' (JStr ''12.50'')]"
  by (simp add: cycle_eval)

text \<open>
  Claim C10. When a file with a stored record is missing from the directory listing of a
  cycle, the cycle sends no alert for it and leaves its entries in both tables as they
  were. When a later listing shows the file again, no new-token alert is sent; if the
  loop gets to the file, the announcements are the now-tradeable one (by the retained
  status) and the one of the diff against the retained record, cut at the first that
  raises.
\<close>

theorem absent_file_untouched:
  assumes "previous_states m f = Some prev" and "f \<notin> set (map fst listing)"
  shows "alerts_for f (log_of (check_for_changes m listing)) = []
       \<and> previous_states (state_after (check_for_changes m listing)) f = Some prev
       \<and> price_transition_states (state_after (check_for_changes m listing)) f
           = price_transition_states m f
       \<and> (distinct (map fst later) \<and> (f, Some cur, env) \<in> set later \<and> endswith f ''.json'' \<longrightarrow>
           alerts_for f (log_of (check_for_changes (state_after (check_for_changes m listing)) later))
           = (if reaches (state_after (check_for_changes m listing)) later f
              then sent
                ((if \<not> stored_status m f \<and> dict_get cur ''midPx'' \<noteq> JNull
                  then [(trade_step env, TradeableAlert (token_id_of f) (dict_get cur ''midPx''))]
                  else [])
                 @ (if compute_changes prev (clean cur) (stored_status m f) \<noteq> []
                    then [(change_step env,
                           ChangesAlert (token_id_of f)
                             (compute_changes prev (clean cur) (stored_status m f)))]
                    else []))
              else [])
           \<and> filter is_new_token
                (alerts_for f
                   (log_of (check_for_changes (state_after (check_for_changes m listing)) later)))
             = [])"
proof -
  let ?m1 = "state_after (check_for_changes m listing)"
  let ?steps = "(if \<not> stored_status m f \<and> dict_get cur ''midPx'' \<noteq> JNull
                  then [(trade_step env, TradeableAlert (token_id_of f) (dict_get cur ''midPx''))]
                  else [])
                 @ (if compute_changes prev (clean cur) (stored_status m f) \<noteq> []
                    then [(change_step env,
                           ChangesAlert (token_id_of f)
                             (compute_changes prev (clean cur) (stored_status m f)))]
                    else [])"
  note a = check_absent [OF assms(2), of m]
  have p: "previous_states ?m1 f = Some prev" using a assms(1) by simp
  have s: "stored_status ?m1 f = stored_status m f" using a by (simp add: stored_status_def)
  have r: "stored_record ?m1 f = prev" using p by (simp add: stored_record_def)
  have later: "alerts_for f (log_of (check_for_changes ?m1 later))
               = (if reaches ?m1 later f then sent ?steps else [])
             \<and> filter is_new_token (alerts_for f (log_of (check_for_changes ?m1 later))) = []"
    if l: "distinct (map fst later) \<and> (f, Some cur, env) \<in> set later \<and> endswith f ''.json''"
  proof -
    have "fst (snd (process_file env ?m1 f (Some cur))) = sent ?steps"
      by (simp add: process_file_alerts p s r)
    with l have e: "alerts_for f (log_of (check_for_changes ?m1 later))
                    = (if reaches ?m1 later f then sent ?steps else [])"
      using check_present [of later f "Some cur" env ?m1] by simp
    have "filter is_new_token (sent ?steps) = []"
      by (rule filter_sent_none) (auto split: if_splits)
    with e show ?thesis by simp
  qed
  have quiet: "alerts_for f (log_of (check_for_changes m listing)) = []"
    and kept: "price_transition_states ?m1 f = price_transition_states m f"
    using a by simp_all
  from quiet p kept later show ?thesis by blast
qed

text \<open>The directory is empty for one cycle, then the file is back with a price.\<close>

theorem absent_file_untouched_witness:
  "alerts_for ''XYZ.json'' (log_of (check_for_changes (xyz_loaded JNull) [])) = []
   \<and> previous_states (state_after (check_for_changes (xyz_loaded JNull) [])) ''XYZ.json''
       = Some [(''name'', JStr ''XYZ''), (''midPx'', JNull)]
   \<and> alerts_for ''XYZ.json''
        (log_of (check_for_changes (state_after (check_for_changes (xyz_loaded JNull) []))
                   (xyz (JStr ''12.50''))))
       = [TradeableAlert ''XYZ'' (JStr ''12.50''),
          ChangesAlert ''XYZ'' [(''midPx'', (JNull, JStr ''12.50''))]]
   \<and> filter is_new_token
        (alerts_for ''XYZ.json''
          (log_of (check_for_changes (state_after (check_for_changes (xyz_loaded JNull) []))
                     (xyz (JStr ''12.50'')))))
       = []"
proof -
  have p: "previous_states (xyz_loaded JNull) ''XYZ.json''
           = Some [(''name'', JStr ''XYZ''), (''midPx'', JNull)]"
    by (simp add: cycle_eval)
  have a: "''XYZ.json'' \<notin> set (map fst ([] :: listing))"
    by simp
  have l: "distinct (map fst (xyz (JStr ''12.50'')))
           \<and> (''XYZ.json'', Some [(''name'', JStr ''XYZ''), (''midPx'', JStr ''12.50'')], quiet)
               \<in> set (xyz (JStr ''12.50''))
           \<and> endswith ''XYZ.json'' ''.json''"
    by (simp add: xyz_def xyz_in_def endswith_def)
  from absent_file_untouched [OF p a, of "xyz (JStr ''12.50'')"
      "[(''name'', JStr ''XYZ''), (''midPx'', JStr ''12.50'')]" quiet] l
  show ?thesis by (simp add: cycle_eval)
qed

subsection \<open>The diff of two records\<close>

text \<open>
  Claim C7 (corrected). For two cleaned records that differ in exactly one field \<open>k\<close>
  (added, removed or changed under Python's \<open>==\<close>), the diff holds exactly one entry,
  for \<open>k\<close>, with the old and the new value (\<open>None\<close> for the missing side) -- unless
  \<open>k\<close> is \<open>midPx\<close>, the token was already trading and the current record still has the
  key: that difference is skipped by the first loop.
\<close>

theorem single_field_difference:
  assumes "distinct (keys_of cur)"
    and "differ_only_at prev cur k"
    and "\<not> (k = ''midPx'' \<and> was \<and> has_key cur k)"
  shows "compute_changes prev cur was = [(k, (dict_get prev k, dict_get cur k))]"
proof (rule alist_single [OF distinct_compute_changes])
  fix k'
  have d: "distinct (map fst cur)" using assms(1) by (simp add: keys_of_def)
  from assms(2) have nk: "\<not> same_field prev cur k"
    and others: "\<And>j. j \<in> set (keys_of prev) \<union> set (keys_of cur) \<Longrightarrow> j \<noteq> k \<Longrightarrow> same_field prev cur j"
    by (auto simp: differ_only_at_def agree_except_def list_all_iff)
  show "map_of (compute_changes prev cur was) k' =
        (if k' = k then Some (dict_get prev k, dict_get cur k) else None)"
  proof (cases "k' = k")
    case True
    then show ?thesis
      by (simp add: map_of_compute_changes [OF d] differ_field_change [OF nk assms(3)])
  next
    case False
    have "same_field prev cur k'"
    proof (cases "k' \<in> set (keys_of prev) \<union> set (keys_of cur)")
      case True
      with others False show ?thesis by blast
    next
      case False
      then have "map_of prev k' = None" "map_of cur k' = None"
        by (simp_all add: keys_of_def map_of_eq_None_iff)
      then show ?thesis by (rule same_field_absent)
    qed
    with False show ?thesis
      by (simp add: map_of_compute_changes [OF d] same_field_no_change)
  qed
qed

text \<open>
  The scenario of the specification: \<open>deployTime\<close> alone is removed, and the diff is the
  one removed-field entry with the old value.
\<close>

theorem single_field_difference_witness:
  "distinct (keys_of [(''totalSupply'', JStr ''1000'')])
   \<and> differ_only_at
       [(''totalSupply'', JStr ''1000''), (''deployTime'', JStr ''2024-01-01T00:00:00Z'')]
       [(''totalSupply'', JStr ''1000'')] ''deployTime''
   \<and> \<not> (''deployTime'' = ''midPx'' \<and> False \<and> has_key [(''totalSupply'', JStr ''1000'')] ''deployTime'')
   \<and> compute_changes
       [(''totalSupply'', JStr ''1000''), (''deployTime'', JStr ''2024-01-01T00:00:00Z'')]
       [(''totalSupply'', JStr ''1000'')] False
     = [(''deployTime'', (JStr ''2024-01-01T00:00:00Z'', JNull))]"
proof -
  have d: "distinct (keys_of [(''totalSupply'', JStr ''1000'')])"
    by (simp add: keys_of_def)
  have o: "differ_only_at
       [(''totalSupply'', JStr ''1000''), (''deployTime'', JStr ''2024-01-01T00:00:00Z'')]
       [(''totalSupply'', JStr ''1000'')] ''deployTime''"
    by (simp add: keys_of_def differ_only_at_def agree_except_def same_field_def py_eq_def)
  have n: "\<not> (''deployTime'' = ''midPx'' \<and> False
              \<and> has_key [(''totalSupply'', JStr ''1000'')] ''deployTime'')"
    by simp
  from single_field_difference [OF d o n] d o show ?thesis
    by (simp add: dict_get_def)
qed

text \<open>
  Claim C7 as stated fails: the two records differ in \<open>midPx\<close> only, the token was
  already trading, and the diff is empty.
\<close>

theorem single_field_difference_counterexample:
  "differ_only_at [(''midPx'', JStr ''12.50'')] [(''midPx'', JStr ''13.00'')] ''midPx''
   \<and> compute_changes [(''midPx'', JStr ''12.50'')] [(''midPx'', JStr ''13.00'')] True = []"
  by (simp add: differ_only_at_def agree_except_def same_field_def keys_of_def
      compute_changes_def has_key_def py_eq_def)

text \<open>
  Claim C9. In a reachable state, no change alert of a cycle names \<open>markPx\<close> or
  \<open>prevDayPx\<close>, and two directory listings that are equal once the ignored fields are
  dropped give the same alerts and the same next state: the ignored fields influence
  neither the diff nor the trading-status check.
\<close>

theorem ignored_fields_invisible:
  assumes "reachable m"
  shows "(\<forall>(g, a) \<in> set (log_of (check_for_changes m listing)).
            changed_fields a \<inter> ignored_fields = {})
       \<and> (same_cleaned listing listing' \<longrightarrow>
            check_for_changes m listing = check_for_changes m listing')"
  using check_no_ignored [OF reachable_stored_clean [OF assms]] check_cleaned
  by auto

text \<open>
  Two listings that differ in \<open>markPx\<close> only: the same result, and the change alert
  names \<open>midPx\<close> alone.
\<close>

theorem ignored_fields_invisible_witness:
  "reachable (xyz_loaded JNull)
   \<and> same_cleaned (xyz_marked (JStr ''12.60'') (JStr ''12.40''))
         (xyz_marked (JStr ''12.60'') (JStr ''99''))
   \<and> check_for_changes (xyz_loaded JNull) (xyz_marked (JStr ''12.60'') (JStr ''12.40''))
     = check_for_changes (xyz_loaded JNull) (xyz_marked (JStr ''12.60'') (JStr ''99''))
   \<and> log_of (check_for_changes (xyz_loaded JNull) (xyz_marked (JStr ''12.60'') (JStr ''12.40'')))
     = [(''XYZ.json'', TradeableAlert ''XYZ'' (JStr ''12.60'')),
        (''XYZ.json'', ChangesAlert ''XYZ'' [(''midPx'', (JNull, JStr ''12.60''))])]
   \<and> changed_fields (ChangesAlert ''XYZ'' [(''midPx'', (JNull, JStr ''12.60''))])
       \<inter> ignored_fields = {}"
proof -
  have r: "reachable (xyz_loaded JNull)"
    by (rule reachable_xyz_loaded)
  have s: "same_cleaned (xyz_marked (JStr ''12.60'') (JStr ''12.40''))
             (xyz_marked (JStr ''12.60'') (JStr ''99''))"
    by (simp add: same_cleaned_def xyz_marked_def clean_def ignored_fields_def)
  have l: "log_of (check_for_changes (xyz_loaded JNull) (xyz_marked (JStr ''12.60'') (JStr ''12.40'')))
     = [(''XYZ.json'', TradeableAlert ''XYZ'' (JStr ''12.60'')),
        (''XYZ.json'', ChangesAlert ''XYZ'' [(''midPx'', (JNull, JStr ''12.60''))])]"
    by (simp add: cycle_eval)
  note t = ignored_fields_invisible [OF r, of "xyz_marked (JStr ''12.60'') (JStr ''12.40'')"
      "xyz_marked (JStr ''12.60'') (JStr ''99'')"]
  from t s have e: "check_for_changes (xyz_loaded JNull) (xyz_marked (JStr ''12.60'') (JStr ''12.40''))
     = check_for_changes (xyz_loaded JNull) (xyz_marked (JStr ''12.60'') (JStr ''99''))"
    by blast
  from t l have c: "changed_fields (ChangesAlert ''XYZ'' [(''midPx'', (JNull, JStr ''12.60''))])
       \<inter> ignored_fields = {}"
    by simp
  from r s e l c show ?thesis by blast
qed

subsection \<open>New pairs\<close>

text \<open>
  Claim C4 (corrected). \<open>known_pairs\<close> is replaced at the end of every cycle that runs
  to its end by the names of the snapshot just fetched. Over any run of cycles in which
  the pair, from the first fetched snapshot that lists it, is listed exactly once in
  every fetched snapshot, and in which every cycle that sends a new-pair alert for it
  runs to its end, at most one new-pair alert is sent for it, whatever \<open>known_pairs\<close>
  was at the start.
\<close>

theorem one_alert_while_listed:
  assumes "listed_once p cycles" and "alerting_cycles_complete p known cycles"
  shows "length (new_pair_alerts p (snd (run_updates known cycles))) \<le> 1"
  using assms
proof (induction cycles arbitrary: known)
  case Nil
  show ?case by (simp add: new_pair_alerts_def)
next
  case (Cons md later)
  let ?r = "check_for_updates known md"
  show ?case
  proof (cases "unlisted p md")
    case True
    with Cons.prems(1) have l: "listed_once p later" by (simp add: listed_once_def)
    from Cons.prems(2) have a: "alerting_cycles_complete p (known_after ?r) later"
      by (simp add: Let_def)
    from True cycle_alerts_le [of p known md] have "new_pair_alerts p (effects_of ?r) = []"
      by (cases md) (simp_all add: unlisted_def)
    with Cons.IH [OF l a] show ?thesis
      unfolding run_updates_Cons by (simp add: new_pair_alerts_append)
  next
    case False
    with Cons.prems(1) have "stays_listed p (md # later)" by (simp add: listed_once_def)
    then show ?thesis using Cons.prems(2) by (rule one_alert_from_listing)
  qed
qed

text \<open>
  Four cycles: the pair is not listed in the first, the third has no answer; one alert.
\<close>

theorem one_alert_while_listed_witness:
  "listed_once ''PURR'' [Some [(hfun, answers None)], Some [(purr, answers (Some purr_details))],
                         None, Some [(hfun, answers None), (purr, answers (Some purr_details))]]
   \<and> new_pair_alerts ''PURR''
        (snd (run_updates {} [Some [(hfun, answers None)],
                              Some [(purr, answers (Some purr_details))], None,
                              Some [(hfun, answers None), (purr, answers (Some purr_details))]]))
     = [NotifyNewPair ''PURR'' purr_details]"
proof -
  let ?cycles = "[Some [(hfun, answers None)], Some [(purr, answers (Some purr_details))],
                  None, Some [(hfun, answers None), (purr, answers (Some purr_details))]]"
  have s: "listed_once ''PURR'' ?cycles"
    by (simp add: pair_eval)
  have c: "alerting_cycles_complete ''PURR'' {} ?cycles"
    by (simp add: pair_eval)
  have e: "new_pair_alerts ''PURR'' (snd (run_updates {} ?cycles))
           = [NotifyNewPair ''PURR'' purr_details]"
    by (simp add: pair_eval)
  from one_alert_while_listed [OF s c] s e show ?thesis by simp
qed

text \<open>
  Claim C4 as stated fails, in two ways. The pair is listed, missing from the next
  snapshot, and listed again: it is alerted twice. And the pair is listed in both
  snapshots of a run, but an exception leaves the first cycle after the alert was
  sent, so that \<open>known_pairs\<close> is not replaced: it is alerted twice.
\<close>

theorem one_alert_while_listed_counterexample:
  "new_pair_alerts ''PURR''
     (snd (run_updates {} [Some [(purr, answers (Some purr_details))],
                           Some [(hfun, answers None)],
                           Some [(purr, answers (Some purr_details))]]))
   = [NotifyNewPair ''PURR'' purr_details, NotifyNewPair ''PURR'' purr_details]
   \<and> stays_listed ''PURR'' [Some [(purr, answers_then (Some purr_details) SendRaises)],
                            Some [(purr, answers (Some purr_details))]]
   \<and> new_pair_alerts ''PURR''
       (snd (run_updates {} [Some [(purr, answers_then (Some purr_details) SendRaises)],
                             Some [(purr, answers (Some purr_details))]]))
     = [NotifyNewPair ''PURR'' purr_details, NotifyNewPair ''PURR'' purr_details]"
  by (simp add: pair_eval)

text \<open>
  Claim C5 (corrected). Take a pair of the fetched snapshot that is not in
  \<open>known_pairs\<close>, has a non-empty token id and whose details are fetched as a non-empty
  object. If no exception escaped on the assets listed before it, saving the details
  returns and the \<open>print\<close> calls of the notification do not raise, the pair is notified
  in that cycle. After the cycle \<open>known_pairs\<close> is the set of the snapshot's names,
  notified or not, unless an exception left the loop: then it is what it was.
\<close>

theorem new_pair_notified_when_details_fetched:
  assumes "tokens = pre @ (a, env) # post"
    and "\<not> interrupted (check_for_updates known (Some pre))"
    and "pair_name a \<notin> known" and "token_id a = Some t" and "t \<noteq> []"
    and "fetched env = Fetched (Some d)" and "d \<noteq> []"
    and "save_ok env" and "notify_step env \<noteq> PrintRaises"
  shows "NotifyNewPair (pair_name a) d \<in> set (effects_of (check_for_updates known (Some tokens)))
       \<and> known_after (check_for_updates known (Some tokens))
           = (if interrupted (check_for_updates known (Some tokens)) then known
              else set (names_of tokens))"
proof -
  let ?p = "process_assets known pre {} []"
  let ?e = "new_pair_effects known (pair_name a) (token_id a) env"
  from assms(2) have np: "\<not> snd (snd ?p)"
    by (simp add: check_for_updates_Some interrupted_def)
  have e: "fst ?e = SaveTokenDetails t d # step_alerts (notify_step env) (NotifyNewPair (pair_name a) d)"
    using assms(3-8) by (simp add: new_pair_effects_def truthy_id_def truthy_details_def)
  with assms(9) have n: "NotifyNewPair (pair_name a) d \<in> set (fst ?e)"
    by (simp add: step_alerts_def)
  have s: "process_assets known tokens {} []
           = process_assets known ((a, env) # post) (fst ?p) (fst (snd ?p))"
    unfolding assms(1) process_assets_append using np by simp
  have "\<exists>ys. fst (snd (process_assets known tokens {} [])) = (fst (snd ?p) @ fst ?e) @ ys"
  proof (cases "snd ?e")
    case True
    then show ?thesis by (simp add: s process_assets_Cons)
  next
    case False
    with process_assets_prefix [of known post "insert (pair_name a) (fst ?p)" "fst (snd ?p) @ fst ?e"]
    show ?thesis by (simp add: s process_assets_Cons)
  qed
  with n have "NotifyNewPair (pair_name a) d \<in> set (fst (snd (process_assets known tokens {} [])))"
    by auto
  then show ?thesis
    by (simp add: check_for_updates_Some effects_of_def known_after_def interrupted_def)
qed

text \<open>A known pair and a new one whose details arrive.\<close>

theorem new_pair_notified_witness:
  "NotifyNewPair ''PURR'' purr_details
     \<in> set (effects_of (check_for_updates {''HFUN''}
                         (Some [(hfun, answers None), (purr, answers (Some purr_details))])))
   \<and> known_after (check_for_updates {''HFUN''}
                     (Some [(hfun, answers None), (purr, answers (Some purr_details))]))
     = {''HFUN'', ''PURR''}"
proof -
  have i: "[(hfun, answers None), (purr, answers (Some purr_details))]
           = [(hfun, answers None)] @ (purr, answers (Some purr_details)) # []"
    by simp
  have r: "\<not> interrupted (check_for_updates {''HFUN''} (Some [(hfun, answers None)]))"
    by (simp add: pair_eval)
  have k: "pair_name purr \<notin> {''HFUN''}"
    by (simp add: purr_def)
  have t: "token_id purr = Some ''0xc1fb''"
    by (simp add: purr_def)
  have n: "''0xc1fb'' \<noteq> []"
    by simp
  have f: "fetched (answers (Some purr_details)) = Fetched (Some purr_details)"
    by (simp add: answers_def)
  have d: "purr_details \<noteq> []"
    by (simp add: purr_details_def)
  have s: "save_ok (answers (Some purr_details))"
    by (simp add: answers_def)
  have o: "notify_step (answers (Some purr_details)) \<noteq> PrintRaises"
    by (simp add: answers_def)
  from new_pair_notified_when_details_fetched [OF i r k t n f d s o]
  show ?thesis by (simp add: pair_eval insert_commute)
qed

text \<open>
  Claim C5 as stated fails: the details request of a new pair fails, nothing is
  notified, and the pair is known after the cycle.
\<close>

theorem new_pair_notified_counterexample:
  "check_for_updates {} (Some [(purr, answers None)]) = ({''PURR''}, [], False)"
  by (simp add: pair_eval)

end
